theory Spec2Isabelle
  imports Main "HOL-Library.Word" "HOL-Library.Multiset"
begin

unbundle bit_operations_syntax

section \<open>Components, references and the store\<close>

text \<open>
  A component (\<^verbatim>\<open>SynchrotronComponentList<bit_width>\<close> and
  \<^verbatim>\<open>SynchrotronComponentFList<bit_width>\<close>) has three fields: the bitset \<^verbatim>\<open>state\<close> and the
  two lists of raw pointers \<^verbatim>\<open>slotOutput\<close> and \<^verbatim>\<open>signalInput\<close>.  The bitset of width
  \<open>bit_width\<close> is a word of that length; a pointer is an address of the store.

  The store is an arena: the cell at an address holds \<open>Some\<close> component while the object
  is alive and \<open>None\<close> once it has been destroyed.  A constructor takes the next cell.
  Following a pointer to a dead or never allocated cell is undefined behaviour in C++;
  here it is the error \<open>InvalidReference\<close>.

  The scoped lock (\<^verbatim>\<open>LockBlock lock(this)\<close>) is no part of the model: execution is
  single-threaded, and no method takes the lock of an object twice.
\<close>

type_synonym addr = nat

record (overloaded) 'w comp =
  state :: "'w word"
  slotOutput :: "addr list"
  signalInput :: "addr list"

type_synonym 'w heap = "'w comp option list"

datatype error = InvalidReference | OutOfFuel

text \<open>The two classes of the repository differ in the container of the two lists.\<close>

datatype variant = ComponentList | ComponentFList

definition bindE :: "error + 'a \<Rightarrow> ('a \<Rightarrow> error + 'b) \<Rightarrow> error + 'b" where
  "bindE m f = (case m of Inl e \<Rightarrow> Inl e | Inr x \<Rightarrow> f x)"

text \<open>A range-based \<^verbatim>\<open>for\<close> loop over a list, its body run on the state left by the
  previous iteration.\<close>

fun foldE :: "('a \<Rightarrow> 's \<Rightarrow> error + 's) \<Rightarrow> 'a list \<Rightarrow> 's \<Rightarrow> error + 's" where
  "foldE f [] s = Inr s"
| "foldE f (x # xs) s = bindE (f x s) (foldE f xs)"

definition lookup :: "'w heap \<Rightarrow> addr \<Rightarrow> 'w comp option" where
  "lookup h a = (if a < length h then h ! a else None)"

definition deref :: "'w heap \<Rightarrow> addr \<Rightarrow> error + 'w comp" where
  "deref h a = (case lookup h a of None \<Rightarrow> Inl InvalidReference | Some c \<Rightarrow> Inr c)"

text \<open>An assignment to fields of the object at address \<open>a\<close>.\<close>

definition modify :: "addr \<Rightarrow> ('w comp \<Rightarrow> 'w comp) \<Rightarrow> 'w heap \<Rightarrow> error + 'w heap" where
  "modify a f h = bindE (deref h a) (\<lambda>c. Inr (h[a := Some (f c)]))"

subsection \<open>Accessors\<close>

definition getState :: "'w heap \<Rightarrow> addr \<Rightarrow> error + 'w word" where
  "getState h this = bindE (deref h this) (\<lambda>c. Inr (state c))"

definition getIputs :: "'w heap \<Rightarrow> addr \<Rightarrow> error + addr list" where
  "getIputs h this = bindE (deref h this) (\<lambda>c. Inr (signalInput c))"

definition getOutputs :: "'w heap \<Rightarrow> addr \<Rightarrow> error + addr list" where
  "getOutputs h this = bindE (deref h this) (\<lambda>c. Inr (slotOutput c))"

definition getBitWidth :: "'w::len heap \<Rightarrow> addr \<Rightarrow> nat" where
  "getBitWidth h this = LENGTH('w)"

section \<open>Connection management\<close>

text \<open>\<^verbatim>\<open>push_back\<close> of \<^verbatim>\<open>std::list\<close> in the one class, \<^verbatim>\<open>push_front\<close> of
  \<^verbatim>\<open>std::forward_list\<close> in the other.\<close>

fun push :: "variant \<Rightarrow> addr \<Rightarrow> addr list \<Rightarrow> addr list" where
  "push ComponentList x xs = xs @ [x]"
| "push ComponentFList x xs = x # xs"

text \<open>\<^verbatim>\<open>this->slotOutput.push(s); s->signalInput.push(this);\<close>\<close>

definition connectSlot :: "variant \<Rightarrow> addr \<Rightarrow> addr \<Rightarrow> 'w heap \<Rightarrow> error + 'w heap" where
  "connectSlot v this s h =
     bindE (modify this (\<lambda>c. c\<lparr>slotOutput := push v s (slotOutput c)\<rparr>) h)
       (modify s (\<lambda>c. c\<lparr>signalInput := push v this (signalInput c)\<rparr>))"

text \<open>\<^verbatim>\<open>this->slotOutput.remove(s); s->signalInput.remove(this);\<close> where \<^verbatim>\<open>remove\<close> of
  both containers erases every element equal to its argument.\<close>

definition disconnectSlot :: "addr \<Rightarrow> addr \<Rightarrow> 'w heap \<Rightarrow> error + 'w heap" where
  "disconnectSlot this s h =
     bindE (modify this (\<lambda>c. c\<lparr>slotOutput := removeAll s (slotOutput c)\<rparr>) h)
       (modify s (\<lambda>c. c\<lparr>signalInput := removeAll this (signalInput c)\<rparr>))"

definition addInput :: "variant \<Rightarrow> addr \<Rightarrow> addr \<Rightarrow> 'w heap \<Rightarrow> error + 'w heap" where
  "addInput v this input h = connectSlot v input this h"

definition addInput_list :: "variant \<Rightarrow> addr \<Rightarrow> addr list \<Rightarrow> 'w heap \<Rightarrow> error + 'w heap" where
  "addInput_list v this inputList h = foldE (\<lambda>connection. addInput v this connection) inputList h"

definition removeInput :: "addr \<Rightarrow> addr \<Rightarrow> 'w heap \<Rightarrow> error + 'w heap" where
  "removeInput this input h = disconnectSlot input this h"

definition addOutput :: "variant \<Rightarrow> addr \<Rightarrow> addr \<Rightarrow> 'w heap \<Rightarrow> error + 'w heap" where
  "addOutput v this output h = connectSlot v this output h"

definition addOutput_list :: "variant \<Rightarrow> addr \<Rightarrow> addr list \<Rightarrow> 'w heap \<Rightarrow> error + 'w heap" where
  "addOutput_list v this outputList h = foldE (\<lambda>connection. addOutput v this connection) outputList h"

definition removeOutput :: "addr \<Rightarrow> addr \<Rightarrow> 'w heap \<Rightarrow> error + 'w heap" where
  "removeOutput this output h = disconnectSlot this output h"

section \<open>Construction and destruction\<close>

text \<open>The default constructor: \<^verbatim>\<open>state(initial_value)\<close> keeps the low \<open>bit_width\<close> bits of
  the \<^verbatim>\<open>size_t\<close>; both lists start empty.  The result is the address of the new object
  and the store that holds it.\<close>

definition construct :: "nat \<Rightarrow> 'w::len heap \<Rightarrow> addr \<times> 'w heap" where
  "construct initial_value h =
     (length h, h @ [Some \<lparr>state = of_nat initial_value, slotOutput = [], signalInput = []\<rparr>])"

text \<open>The copy constructor delegates to the default constructor with no argument, then
  adds every input of \<open>sc\<close> and, if asked, every output of \<open>sc\<close>.  Neither loop changes
  the list it runs over, since \<open>this\<close> is a new object: the first changes
  \<^verbatim>\<open>sender->slotOutput\<close> and \<^verbatim>\<open>this->signalInput\<close>, the second
  \<^verbatim>\<open>this->slotOutput\<close> and \<^verbatim>\<open>connection->signalInput\<close>.  The second loop reads
  \<^verbatim>\<open>sc.slotOutput\<close> as the first loop left it.\<close>

definition copy_construct ::
  "variant \<Rightarrow> addr \<Rightarrow> bool \<Rightarrow> 'w::len heap \<Rightarrow> error + (addr \<times> 'w heap)" where
  "copy_construct v sc duplicateAll_IO h =
     (case construct 0 h of (this, h0) \<Rightarrow>
        bindE (getIputs h0 sc) (\<lambda>senders.
        bindE (foldE (\<lambda>sender. addInput v this sender) senders h0) (\<lambda>h1.
        if duplicateAll_IO then
          bindE (getOutputs h1 sc) (\<lambda>connections.
          bindE (foldE (\<lambda>connection. addOutput v this connection) connections h1) (\<lambda>h2.
          Inr (this, h2)))
        else Inr (this, h1))))"

text \<open>The connection constructor.\<close>

definition connect_construct ::
  "variant \<Rightarrow> addr list \<Rightarrow> addr list \<Rightarrow> 'w::len heap \<Rightarrow> error + (addr \<times> 'w heap)" where
  "connect_construct v inputList outputList h =
     (case construct 0 h of (this, h0) \<Rightarrow>
        bindE (addInput_list v this inputList h0) (\<lambda>h1.
        bindE (addOutput_list v this outputList h1) (\<lambda>h2.
        Inr (this, h2))))"

text \<open>The destructor.  The first loop runs over \<^verbatim>\<open>this->slotOutput\<close> and changes lists
  \<^verbatim>\<open>signalInput\<close> only, the second runs over \<^verbatim>\<open>this->signalInput\<close> (as the first loop
  left it) and changes lists \<^verbatim>\<open>slotOutput\<close> only.  Then both lists are cleared and the
  storage of the object ends.\<close>

definition destroy :: "addr \<Rightarrow> 'w heap \<Rightarrow> error + 'w heap" where
  "destroy this h =
     bindE (getOutputs h this) (\<lambda>connections.
     bindE (foldE (\<lambda>connection.
              modify connection (\<lambda>c. c\<lparr>signalInput := removeAll this (signalInput c)\<rparr>))
            connections h) (\<lambda>h1.
     bindE (getIputs h1 this) (\<lambda>senders.
     bindE (foldE (\<lambda>sender.
              modify sender (\<lambda>c. c\<lparr>slotOutput := removeAll this (slotOutput c)\<rparr>))
            senders h1) (\<lambda>h2.
     bindE (modify this (\<lambda>c. c\<lparr>slotOutput := [], signalInput := []\<rparr>) h2) (\<lambda>h3.
     Inr (h3[this := None]))))))"

section \<open>Propagation: tick and emit\<close>

text \<open>
  \<^verbatim>\<open>tick\<close> and \<^verbatim>\<open>emit\<close> call each other, to a depth that the code does not bound.  The
  model counts the depth down: \<open>tick n\<close> may nest \<open>n\<close> calls of \<^verbatim>\<open>tick\<close> and answers
  \<open>OutOfFuel\<close> when it would need more.  So that one can say which calls were made, the
  state that is threaded through holds, next to the store, the list of the calls of
  \<^verbatim>\<open>tick\<close> and \<^verbatim>\<open>emit\<close> made so far, in the order in which they were entered.
\<close>

datatype event = TickCall addr | EmitCall addr

type_synonym 'w world = "'w heap \<times> event list"

text \<open>The loop of \<^verbatim>\<open>tick\<close>: \<^verbatim>\<open>this->state |= connection->getState()\<close>.\<close>

definition tick_step :: "addr \<Rightarrow> addr \<Rightarrow> 'w::len heap \<Rightarrow> error + 'w heap" where
  "tick_step this connection h =
     bindE (getState h connection) (\<lambda>s. modify this (\<lambda>c. c\<lparr>state := state c OR s\<rparr>) h)"

text \<open>The body of \<^verbatim>\<open>emit\<close>, with the method that \<^verbatim>\<open>connection->tick()\<close> runs as a parameter.\<close>

definition emit_body ::
  "(addr \<Rightarrow> 'w world \<Rightarrow> error + 'w world) \<Rightarrow> addr \<Rightarrow> 'w world \<Rightarrow> error + 'w world" where
  "emit_body tk this w =
     (case w of (h, tr) \<Rightarrow>
        bindE (getOutputs h this) (\<lambda>connections.
        foldE tk connections (h, tr @ [EmitCall this])))"

primrec tick :: "nat \<Rightarrow> addr \<Rightarrow> 'w::len world \<Rightarrow> error + 'w world" where
  "tick 0 this w = Inl OutOfFuel"
| "tick (Suc n) this w =
     (case w of (h, tr) \<Rightarrow>
        bindE (getState h this) (\<lambda>prevState.
        bindE (getIputs h this) (\<lambda>connections.
        bindE (foldE (tick_step this) connections h) (\<lambda>h1.
        bindE (getState h1 this) (\<lambda>s1.
        if prevState \<noteq> s1 then emit_body (tick n) this (h1, tr @ [TickCall this])
        else Inr (h1, tr @ [TickCall this]))))))"

definition emit :: "nat \<Rightarrow> addr \<Rightarrow> 'w::len world \<Rightarrow> error + 'w world" where
  "emit n this w = emit_body (tick n) this w"

section \<open>Observations of the store\<close>

text \<open>Total readings of a store, for stating properties: a dead cell reads as the zero
  state and empty lists.\<close>

definition live :: "'w::len heap \<Rightarrow> addr \<Rightarrow> bool" where
  "live h a \<longleftrightarrow> lookup h a \<noteq> None"

definition state_of :: "'w::len heap \<Rightarrow> addr \<Rightarrow> 'w word" where
  "state_of h a = (case lookup h a of None \<Rightarrow> 0 | Some c \<Rightarrow> state c)"

definition inputs_of :: "'w::len heap \<Rightarrow> addr \<Rightarrow> addr list" where
  "inputs_of h a = (case lookup h a of None \<Rightarrow> [] | Some c \<Rightarrow> signalInput c)"

definition outputs_of :: "'w::len heap \<Rightarrow> addr \<Rightarrow> addr list" where
  "outputs_of h a = (case lookup h a of None \<Rightarrow> [] | Some c \<Rightarrow> slotOutput c)"

text \<open>The bitwise OR of the states of a list of components.\<close>

definition join_states :: "'w::len heap \<Rightarrow> addr list \<Rightarrow> 'w word" where
  "join_states h xs = foldr (\<lambda>x s. state_of h x OR s) xs 0"

section \<open>Invariants and relations between stores\<close>

text \<open>Invariant I1 of the specification: among the objects alive, \<open>a\<close> is an input of \<open>b\<close>
  exactly when \<open>b\<close> is an output of \<open>a\<close>.\<close>

definition symmetric :: "'w::len heap \<Rightarrow> bool" where
  "symmetric h \<longleftrightarrow>
     (\<forall>a b. live h a \<longrightarrow> live h b \<longrightarrow> (a \<in> set (inputs_of h b) \<longleftrightarrow> b \<in> set (outputs_of h a)))"

text \<open>No dangling pointer: every pointer in a list of an object alive points to an object
  alive (invariant I2 of the specification).\<close>

definition well_formed :: "'w::len heap \<Rightarrow> bool" where
  "well_formed h \<longleftrightarrow>
     (\<forall>a. live h a \<longrightarrow> (\<forall>b \<in> set (inputs_of h a) \<union> set (outputs_of h a). live h b))"

text \<open>The store \<open>h'\<close> has the objects and lists of \<open>h\<close>, and every state of \<open>h'\<close> has all the
  bits that it has in \<open>h\<close>.\<close>

definition grows :: "'w::len heap \<Rightarrow> 'w heap \<Rightarrow> bool" where
  "grows h h' \<longleftrightarrow>
     length h' = length h \<and> (\<forall>a. live h' a = live h a) \<and>
     (\<forall>a. inputs_of h' a = inputs_of h a) \<and> (\<forall>a. outputs_of h' a = outputs_of h a) \<and>
     (\<forall>a. state_of h a OR state_of h' a = state_of h' a)"

text \<open>A bound on the bits that can still be set in a store: the sum of the complements of
  the states, read as numbers.  It falls whenever a state gains a bit.\<close>

definition slack :: "'w::len heap \<Rightarrow> nat" where
  "slack h = (\<Sum>a<length h. unat (NOT (state_of h a)))"

text \<open>The elements of \<open>ys\<close> pushed one after the other onto \<open>xs\<close>, as the loops of the copy
  constructor do.\<close>

definition pushes :: "variant \<Rightarrow> addr list \<Rightarrow> addr list \<Rightarrow> addr list" where
  "pushes v ys xs = fold (push v) ys xs"

text \<open>Component \<open>t\<close> is fed under the assignment \<open>f\<close> of states: the state of every input of
  \<open>t\<close> is contained in the state of \<open>t\<close>.\<close>

definition fed :: "'w::len heap \<Rightarrow> (addr \<Rightarrow> 'w word) \<Rightarrow> addr \<Rightarrow> bool" where
  "fed h f t \<longleftrightarrow> (\<forall>i\<in>set (inputs_of h t). f i OR f t = f t)"

text \<open>The assignment \<open>f\<close> is closed for the store \<open>h\<close>: every output of a component whose state
  under \<open>f\<close> differs from its state in \<open>h\<close> is fed.\<close>

definition closed :: "'w::len heap \<Rightarrow> (addr \<Rightarrow> 'w word) \<Rightarrow> bool" where
  "closed h f \<longleftrightarrow> (\<forall>z. f z \<noteq> state_of h z \<longrightarrow> (\<forall>t\<in>set (outputs_of h z). fed h f t))"

text \<open>Two stores agree up to the order of the lists: the same cells are alive, with the same
  states and, in each list, the same pointers with the same multiplicities.\<close>

definition similar :: "'w::len heap \<Rightarrow> 'w heap \<Rightarrow> bool" where
  "similar h h' \<longleftrightarrow>
     length h' = length h \<and>
     (\<forall>a. live h' a = live h a \<and> state_of h' a = state_of h a \<and>
          mset (inputs_of h' a) = mset (inputs_of h a) \<and>
          mset (outputs_of h' a) = mset (outputs_of h a))"

section \<open>Runs\<close>

text \<open>The calls that a driver can make: the structural ones, which depend on the class only
  through \<open>push\<close>, and the two propagation methods.  A run applies a list of calls in
  order and stops at the first that fails.\<close>

datatype mutation =
    Construct nat
  | CopyConstruct addr bool
  | ConnectConstruct "addr list" "addr list"
  | Destroy addr
  | AddInput addr addr
  | AddInputs addr "addr list"
  | RemoveInput addr addr
  | AddOutput addr addr
  | AddOutputs addr "addr list"
  | RemoveOutput addr addr

datatype op = Mutate mutation | Tick addr | Emit addr

fun mutate :: "variant \<Rightarrow> mutation \<Rightarrow> 'w::len heap \<Rightarrow> error + 'w heap" where
  "mutate v (Construct initial_value) h = Inr (snd (construct initial_value h))"
| "mutate v (CopyConstruct sc duplicateAll_IO) h =
     bindE (copy_construct v sc duplicateAll_IO h) (\<lambda>r. Inr (snd r))"
| "mutate v (ConnectConstruct inputList outputList) h =
     bindE (connect_construct v inputList outputList h) (\<lambda>r. Inr (snd r))"
| "mutate v (Destroy this) h = destroy this h"
| "mutate v (AddInput this input) h = addInput v this input h"
| "mutate v (AddInputs this inputList) h = addInput_list v this inputList h"
| "mutate v (RemoveInput this input) h = removeInput this input h"
| "mutate v (AddOutput this output) h = addOutput v this output h"
| "mutate v (AddOutputs this outputList) h = addOutput_list v this outputList h"
| "mutate v (RemoveOutput this output) h = removeOutput this output h"

fun step :: "variant \<Rightarrow> nat \<Rightarrow> op \<Rightarrow> 'w::len world \<Rightarrow> error + 'w world" where
  "step v n (Mutate m) (h, tr) = bindE (mutate v m h) (\<lambda>h'. Inr (h', tr))"
| "step v n (Tick this) w = tick n this w"
| "step v n (Emit this) w = emit n this w"

definition exec :: "variant \<Rightarrow> nat \<Rightarrow> op list \<Rightarrow> 'w::len world \<Rightarrow> error + 'w world" where
  "exec v n ops w = foldE (step v n) ops w"

text \<open>Two results agree: both are the same error, or both are stores that agree up to the
  order of the lists.\<close>

definition agree :: "error + 'w::len world \<Rightarrow> error + 'w world \<Rightarrow> bool" where
  "agree r r' =
     (case r of
        Inl e \<Rightarrow> (case r' of Inl e' \<Rightarrow> e = e' | Inr w' \<Rightarrow> False)
      | Inr w \<Rightarrow> (case r' of Inl e' \<Rightarrow> False | Inr w' \<Rightarrow> similar (fst w) (fst w')))"

section \<open>Scenarios\<close>

text \<open>Cycle stabilisation: two components, the first constructed with bit 0 set (value 1),
  the second with bit 1 set (value 2), each added as the input of the other.\<close>

definition two_cycle :: "variant \<Rightarrow> error + 'w::len heap" where
  "two_cycle v =
     (case construct 1 [] of (A, h1) \<Rightarrow>
      case construct 2 h1 of (B, h2) \<Rightarrow>
        bindE (addInput v A B h2) (addInput v B A))"

text \<open>Destructor disconnection: \<open>A \<rightarrow> B \<rightarrow> C\<close> at the addresses 0, 1 and 2, with any initial
  values.\<close>

definition line3 :: "variant \<Rightarrow> nat \<Rightarrow> nat \<Rightarrow> nat \<Rightarrow> error + 'w::len heap" where
  "line3 v a b c =
     (case construct a [] of (A, h1) \<Rightarrow>
      case construct b h1 of (B, h2) \<Rightarrow>
      case construct c h2 of (C, h3) \<Rightarrow>
        bindE (addOutput v A B h3) (addOutput v B C))"

text \<open>Fixed point: a chain \<open>0 \<rightarrow> 1 \<rightarrow> \<dots> \<rightarrow> N - 1\<close>.  Component 0 is constructed with the initial
  value, every further component with the default value and with its predecessor as its
  only input.\<close>

fun chain_from :: "variant \<Rightarrow> nat \<Rightarrow> 'w::len heap \<Rightarrow> error + 'w heap" where
  "chain_from v 0 h = Inr h"
| "chain_from v (Suc k) h =
     (case construct 0 h of (this, h1) \<Rightarrow> bindE (addInput v this (this - 1) h1) (chain_from v k))"

definition chain :: "variant \<Rightarrow> nat \<Rightarrow> nat \<Rightarrow> error + 'w::len heap" where
  "chain v initial_value N =
     (case N of 0 \<Rightarrow> Inr [] | Suc k \<Rightarrow> chain_from v k (snd (construct initial_value [])))"

text \<open>The shape of such a chain, whatever the states are.\<close>

definition is_chain :: "nat \<Rightarrow> 'w::len heap \<Rightarrow> bool" where
  "is_chain N h \<longleftrightarrow>
     length h = N \<and>
     (\<forall>i<N. live h i \<and> inputs_of h i = (if i = 0 then [] else [i - 1]) \<and>
             outputs_of h i = (if Suc i < N then [Suc i] else []))"

text \<open>The calls made when a change runs down the chain from component \<open>k\<close>.\<close>

definition chain_calls :: "nat \<Rightarrow> nat \<Rightarrow> event list" where
  "chain_calls k N = concat (map (\<lambda>i. [TickCall i, EmitCall i]) [k..<N])"

section \<open>Basic facts\<close>

lemma bindE_Inl [simp]: "bindE (Inl e) f = Inl e"
  by (simp add: bindE_def)

lemma bindE_Inr [simp]: "bindE (Inr x) f = f x"
  by (simp add: bindE_def)

lemma bindE_eq_Inr: "bindE m f = Inr y \<longleftrightarrow> (\<exists>x. m = Inr x \<and> f x = Inr y)"
  by (cases m) simp_all

lemma foldE_append: "foldE f (xs @ ys) s = bindE (foldE f xs s) (foldE f ys)"
proof (induction xs arbitrary: s)
  case Nil
  show ?case by simp
next
  case (Cons x xs)
  show ?case
  proof (cases "f x s")
    case (Inl e)
    then show ?thesis by simp
  next
    case (Inr s')
    then show ?thesis by (simp add: Cons.IH)
  qed
qed

lemma lookup_update: "lookup (h[a := x]) b = (if b = a \<and> a < length h then x else lookup h b)"
  by (simp add: lookup_def)

lemma lookup_snoc: "lookup (h @ [x]) b = (if b = length h then x else lookup h b)"
  by (auto simp: lookup_def nth_append)

lemma lookup_Some_less: "lookup h a = Some c \<Longrightarrow> a < length h"
  by (simp add: lookup_def split: if_splits)

lemma lookup_length [simp]: "lookup h (length h) = None"
  by (simp add: lookup_def)

lemma deref_alt: "deref h a = (case lookup h a of None \<Rightarrow> Inl InvalidReference | Some c \<Rightarrow> Inr c)"
  by (simp add: deref_def)

lemma modify_alt:
  "modify a f h = (case lookup h a of None \<Rightarrow> Inl InvalidReference | Some c \<Rightarrow> Inr (h[a := Some (f c)]))"
  by (simp add: modify_def deref_def split: option.splits)

lemma getState_alt:
  "getState h a = (case lookup h a of None \<Rightarrow> Inl InvalidReference | Some c \<Rightarrow> Inr (state c))"
  by (simp add: getState_def deref_def split: option.splits)

lemma getIputs_alt:
  "getIputs h a = (case lookup h a of None \<Rightarrow> Inl InvalidReference | Some c \<Rightarrow> Inr (signalInput c))"
  by (simp add: getIputs_def deref_def split: option.splits)

lemma getOutputs_alt:
  "getOutputs h a = (case lookup h a of None \<Rightarrow> Inl InvalidReference | Some c \<Rightarrow> Inr (slotOutput c))"
  by (simp add: getOutputs_def deref_def split: option.splits)

lemma update_same: "lookup h a = Some c \<Longrightarrow> h[a := Some c] = h"
  by (simp add: lookup_def list_update_same_conv split: if_splits)

lemma join_states_Nil [simp]: "join_states h [] = 0"
  by (simp add: join_states_def)

lemma join_states_Cons [simp]: "join_states h (x # xs) = state_of h x OR join_states h xs"
  by (simp add: join_states_def)

lemma state_of_update:
  "lookup h a = Some c \<Longrightarrow> state_of (h[a := Some c']) b = (if b = a then state c' else state_of h b)"
  by (simp add: state_of_def lookup_update lookup_Some_less)

lemma join_states_absorb:
  assumes "lookup h this = Some c" and "s OR state c = s"
  shows "s OR join_states (h[this := Some (c\<lparr>state := s\<rparr>)]) xs = s OR join_states h xs"
proof (induction xs)
  case Nil
  show ?case by simp
next
  case (Cons x xs)
  have "s OR (state_of (h[this := Some (c\<lparr>state := s\<rparr>)]) x OR join_states (h[this := Some (c\<lparr>state := s\<rparr>)]) xs)
      = state_of (h[this := Some (c\<lparr>state := s\<rparr>)]) x OR (s OR join_states (h[this := Some (c\<lparr>state := s\<rparr>)]) xs)"
    by (simp add: or.left_commute)
  also have "\<dots> = state_of (h[this := Some (c\<lparr>state := s\<rparr>)]) x OR (s OR join_states h xs)"
    by (simp add: Cons.IH)
  also have "\<dots> = s OR (state_of h x OR join_states h xs)"
  proof (cases "x = this")
    case True
    have "state_of h this = state c" using assms(1) by (simp add: state_of_def)
    then have "s OR (state_of h this OR join_states h xs) = s OR join_states h xs"
      using assms(2) by (metis or.assoc)
    moreover have "s OR (s OR join_states h xs) = s OR join_states h xs"
      by (simp add: or.assoc [symmetric])
    ultimately show ?thesis using True assms(1) by (simp add: state_of_update)
  next
    case False
    then show ?thesis using assms(1) by (simp add: state_of_update or.left_commute)
  qed
  finally show ?case by simp
qed

lemma tick_step_live:
  assumes "lookup h this = Some c" and "live h x"
  shows "tick_step this x h = Inr (h[this := Some (c\<lparr>state := state c OR state_of h x\<rparr>)])"
proof -
  from assms(2) obtain d where d: "lookup h x = Some d" by (auto simp: live_def)
  then have s: "state_of h x = state d" by (simp add: state_of_def)
  show ?thesis
    by (simp add: tick_step_def getState_alt modify_alt s d assms(1))
qed

lemma tick_loop:
  assumes "lookup h this = Some c" and "\<forall>x\<in>set xs. live h x"
  shows "foldE (tick_step this) xs h = Inr (h[this := Some (c\<lparr>state := state c OR join_states h xs\<rparr>)])"
  using assms
proof (induction xs arbitrary: h c)
  case Nil
  then show ?case by (simp add: update_same)
next
  case (Cons x xs)
  let ?s = "state c OR state_of h x"
  let ?c = "c\<lparr>state := ?s\<rparr>"
  let ?h = "h[this := Some ?c]"
  have lt: "this < length h" using Cons.prems(1) by (rule lookup_Some_less)
  have step: "tick_step this x h = Inr ?h"
    using Cons.prems by (simp add: tick_step_live)
  have look: "lookup ?h this = Some ?c"
    using lt by (simp add: lookup_update)
  have lives: "\<forall>y\<in>set xs. live ?h y"
    using Cons.prems(2) lt by (auto simp: live_def lookup_update)
  have IH: "foldE (tick_step this) xs ?h = Inr (?h[this := Some (?c\<lparr>state := state ?c OR join_states ?h xs\<rparr>)])"
    using look lives by (rule Cons.IH)
  have "?s OR state c = ?s"
    by (metis or.assoc or.commute or.idem)
  then have "?s OR join_states ?h xs = ?s OR join_states h xs"
    using join_states_absorb [OF Cons.prems(1), of ?s xs] by simp
  then have eq: "state ?c OR join_states ?h xs = state c OR join_states h (x # xs)"
    by (simp add: or.assoc)
  have "foldE (tick_step this) (x # xs) h = foldE (tick_step this) xs ?h"
    using step by simp
  also have "\<dots> = Inr (?h[this := Some (?c\<lparr>state := state c OR join_states h (x # xs)\<rparr>)])"
    using IH eq by simp
  also have "?h[this := Some (?c\<lparr>state := state c OR join_states h (x # xs)\<rparr>)]
      = h[this := Some (c\<lparr>state := state c OR join_states h (x # xs)\<rparr>)]"
    by simp
  finally show ?case .
qed

subsection \<open>The loop and the calls of tick\<close>

lemma tick_loop_Inr:
  assumes "foldE (tick_step this) xs h = Inr h1"
  shows "\<forall>x\<in>set xs. live h x"
  using assms
proof (induction xs arbitrary: h)
  case Nil
  show ?case by simp
next
  case (Cons x xs)
  from Cons.prems obtain h' where step: "tick_step this x h = Inr h'"
    and rest: "foldE (tick_step this) xs h' = Inr h1"
    by (auto simp: bindE_eq_Inr)
  from step obtain c d where c: "lookup h this = Some c" and d: "lookup h x = Some d"
    and h': "h' = h[this := Some (c\<lparr>state := state c OR state d\<rparr>)]"
    by (auto simp: tick_step_def getState_alt modify_alt bindE_eq_Inr split: option.splits)
  have "\<forall>y\<in>set xs. live h' y" using rest by (rule Cons.IH)
  then have "\<forall>y\<in>set xs. live h y"
    using c by (auto simp: h' live_def lookup_update split: if_splits)
  then show ?case using d by (simp add: live_def)
qed

lemma tick_Suc:
  assumes "lookup h this = Some c" and "\<forall>x\<in>set (signalInput c). live h x"
  shows "tick (Suc n) this (h, tr) =
    (if state c \<noteq> (state c OR join_states h (signalInput c))
     then emit n this (h[this := Some (c\<lparr>state := state c OR join_states h (signalInput c)\<rparr>)],
                       tr @ [TickCall this])
     else Inr (h, tr @ [TickCall this]))"
proof -
  let ?s = "state c OR join_states h (signalInput c)"
  let ?h = "h[this := Some (c\<lparr>state := ?s\<rparr>)]"
  have loop: "foldE (tick_step this) (signalInput c) h = Inr ?h"
    using assms by (rule tick_loop)
  have lt: "this < length h" using assms(1) by (rule lookup_Some_less)
  have look: "lookup ?h this = Some (c\<lparr>state := ?s\<rparr>)"
    using lt by (simp add: lookup_update)
  have same: "state c = ?s \<Longrightarrow> ?h = h"
    using assms(1) by (simp add: lookup_def list_update_same_conv split: if_splits)
  show ?thesis
    using same by (simp add: getState_alt getIputs_alt assms(1) loop look emit_def)
qed

lemma tick_Suc_Inr:
  assumes "tick (Suc n) this (h, tr) = Inr w'"
  shows "\<exists>c. lookup h this = Some c \<and> (\<forall>x\<in>set (signalInput c). live h x)"
proof -
  from assms obtain c where c: "lookup h this = Some c"
    by (auto simp: getState_alt bindE_eq_Inr split: option.splits)
  from assms c obtain h1 where "foldE (tick_step this) (signalInput c) h = Inr h1"
    by (auto simp: getState_alt getIputs_alt bindE_eq_Inr)
  then have "\<forall>x\<in>set (signalInput c). live h x" by (rule tick_loop_Inr)
  with c show ?thesis by blast
qed

lemma foldE_trace:
  assumes "\<And>x w w'. tk x w = Inr w' \<Longrightarrow> \<exists>more. snd w' = snd w @ more"
    and "foldE tk xs w = Inr w'"
  shows "\<exists>more. snd w' = snd w @ more"
  using assms(2)
proof (induction xs arbitrary: w)
  case Nil
  then show ?case by simp
next
  case (Cons x xs)
  from Cons.prems obtain w1 where 1: "tk x w = Inr w1" and 2: "foldE tk xs w1 = Inr w'"
    by (auto simp: bindE_eq_Inr)
  from assms(1) [OF 1] obtain m1 where "snd w1 = snd w @ m1" ..
  moreover from Cons.IH [OF 2] obtain m2 where "snd w' = snd w1 @ m2" ..
  ultimately show ?case by simp
qed

lemma emit_body_trace:
  assumes "\<And>x w w'. tk x w = Inr w' \<Longrightarrow> \<exists>more. snd w' = snd w @ more"
    and "emit_body tk this w = Inr w'"
  shows "\<exists>more. snd w' = snd w @ EmitCall this # more"
proof -
  obtain h tr where w: "w = (h, tr)" by (cases w)
  from assms(2) obtain conns where "foldE tk conns (h, tr @ [EmitCall this]) = Inr w'"
    by (auto simp: w emit_body_def bindE_eq_Inr)
  from foldE_trace [OF assms(1) this] show ?thesis by (simp add: w)
qed

lemma tick_trace:
  "tick n this (w :: 'w::len world) = Inr w' \<Longrightarrow> \<exists>more. snd w' = snd w @ TickCall this # more"
proof (induction n arbitrary: this w w')
  case 0
  then show ?case by simp
next
  case (Suc n)
  obtain h tr where w: "w = (h, tr)" by (cases w)
  from Suc.prems obtain c where c: "lookup h this = Some c"
    and l: "\<forall>x\<in>set (signalInput c). live h x"
    using tick_Suc_Inr unfolding w by blast
  have inner: "\<exists>more. snd w' = snd w @ more" if "tick n x w = Inr w'"
    for x and w w' :: "'w world"
  proof -
    from Suc.IH [OF that] obtain more where "snd w' = snd w @ TickCall x # more" ..
    then show ?thesis ..
  qed
  show ?case
  proof (cases "state c = (state c OR join_states h (signalInput c))")
    case True
    then show ?thesis using Suc.prems unfolding w tick_Suc [OF c l] by auto
  next
    case False
    then have "emit_body (tick n) this (h[this := Some (c\<lparr>state := state c OR join_states h (signalInput c)\<rparr>)],
                       tr @ [TickCall this]) = Inr w'"
      using Suc.prems unfolding w tick_Suc [OF c l] by (simp add: emit_def)
    then have "\<exists>more. snd w' = snd (h[this := Some (c\<lparr>state := state c OR join_states h (signalInput c)\<rparr>)],
                       tr @ [TickCall this]) @ EmitCall this # more"
      using inner by (rule emit_body_trace [where tk = "tick n", rotated])
    then obtain more where "snd w' = tr @ TickCall this # EmitCall this # more" by auto
    then show ?thesis by (simp add: w)
  qed
qed

lemma emit_trace:
  assumes "emit n this (w :: 'w::len world) = Inr w'"
  shows "\<exists>more. snd w' = snd w @ EmitCall this # more"
proof -
  have inner: "\<exists>more. snd w' = snd w @ more" if "tick n x w = Inr w'"
    for x and w w' :: "'w world"
  proof -
    from tick_trace [OF that] obtain more where "snd w' = snd w @ TickCall x # more" ..
    then show ?thesis ..
  qed
  from assms have "emit_body (tick n) this w = Inr w'" by (simp add: emit_def)
  then show ?thesis
    using inner by (rule emit_body_trace [where tk = "tick n", rotated])
qed

subsection \<open>Connecting and disconnecting\<close>

lemma live_less: "live h a \<Longrightarrow> a < length h"
  by (auto simp: live_def lookup_def split: if_splits)

lemma heap_eqI:
  assumes "length h' = length h" and "\<And>b. lookup h' b = lookup h b"
  shows "h' = h"
proof (rule nth_equalityI)
  show "length h' = length h" by fact
  fix i assume "i < length h'"
  then show "h' ! i = h ! i" using assms(2) [of i] assms(1) by (simp add: lookup_def)
qed

text \<open>What an assignment to one object does to the readings of the store.\<close>

lemma modify_live:
  assumes "live h a"
  shows "\<exists>h' c. modify a f h = Inr h' \<and> lookup h a = Some c \<and> length h' = length h \<and>
           (\<forall>b. lookup h' b = (if b = a then Some (f c) else lookup h b))"
proof -
  from assms obtain c where c: "lookup h a = Some c" by (auto simp: live_def)
  then have "a < length h" by (rule lookup_Some_less)
  then show ?thesis using c by (simp add: modify_alt lookup_update)
qed

lemma modify_Inr:
  assumes "modify a f h = Inr h'"
  shows "live h a"
  using assms by (auto simp: modify_alt live_def split: option.splits)

lemma connectSlot_live:
  assumes "live h this" and "live h s"
  shows "\<exists>h'. connectSlot v this s h = Inr h' \<and> length h' = length h \<and>
           (\<forall>b. live h' b = live h b) \<and> (\<forall>b. state_of h' b = state_of h b) \<and>
           (\<forall>b. outputs_of h' b = (if b = this then push v s (outputs_of h this) else outputs_of h b)) \<and>
           (\<forall>b. inputs_of h' b = (if b = s then push v this (inputs_of h s) else inputs_of h b))"
proof -
  from modify_live [OF assms(1), of "\<lambda>c. c\<lparr>slotOutput := push v s (slotOutput c)\<rparr>"]
  obtain h1 c where 1: "modify this (\<lambda>c. c\<lparr>slotOutput := push v s (slotOutput c)\<rparr>) h = Inr h1"
    and c: "lookup h this = Some c" and l1: "length h1 = length h"
    and k1: "\<And>b. lookup h1 b = (if b = this then Some (c\<lparr>slotOutput := push v s (slotOutput c)\<rparr>) else lookup h b)"
    by blast
  have "live h1 s" using assms(2) by (simp add: live_def k1)
  from modify_live [OF this, of "\<lambda>c. c\<lparr>signalInput := push v this (signalInput c)\<rparr>"]
  obtain h2 d where 2: "modify s (\<lambda>c. c\<lparr>signalInput := push v this (signalInput c)\<rparr>) h1 = Inr h2"
    and d: "lookup h1 s = Some d" and l2: "length h2 = length h1"
    and k2: "\<And>b. lookup h2 b = (if b = s then Some (d\<lparr>signalInput := push v this (signalInput d)\<rparr>) else lookup h1 b)"
    by blast
  have "connectSlot v this s h = Inr h2" by (simp add: connectSlot_def 1 2)
  moreover have "length h2 = length h" by (simp add: l1 l2)
  moreover have "live h2 b = live h b" for b
    using c d by (auto simp: live_def k1 k2)
  moreover have "state_of h2 b = state_of h b" for b
    using c d by (auto simp: state_of_def k1 k2 split: if_splits)
  moreover have "outputs_of h2 b = (if b = this then push v s (outputs_of h this) else outputs_of h b)" for b
    using c d by (auto simp: outputs_of_def k1 k2 split: if_splits)
  moreover have "inputs_of h2 b = (if b = s then push v this (inputs_of h s) else inputs_of h b)" for b
    using c d by (auto simp: inputs_of_def k1 k2 split: if_splits)
  ultimately show ?thesis by blast
qed

lemma disconnectSlot_live:
  assumes "live h this" and "live h s"
  shows "\<exists>h'. disconnectSlot this s h = Inr h' \<and> length h' = length h \<and>
           (\<forall>b. live h' b = live h b) \<and> (\<forall>b. state_of h' b = state_of h b) \<and>
           (\<forall>b. outputs_of h' b = (if b = this then removeAll s (outputs_of h this) else outputs_of h b)) \<and>
           (\<forall>b. inputs_of h' b = (if b = s then removeAll this (inputs_of h s) else inputs_of h b))"
proof -
  from modify_live [OF assms(1), of "\<lambda>c. c\<lparr>slotOutput := removeAll s (slotOutput c)\<rparr>"]
  obtain h1 c where 1: "modify this (\<lambda>c. c\<lparr>slotOutput := removeAll s (slotOutput c)\<rparr>) h = Inr h1"
    and c: "lookup h this = Some c" and l1: "length h1 = length h"
    and k1: "\<And>b. lookup h1 b = (if b = this then Some (c\<lparr>slotOutput := removeAll s (slotOutput c)\<rparr>) else lookup h b)"
    by blast
  have "live h1 s" using assms(2) by (simp add: live_def k1)
  from modify_live [OF this, of "\<lambda>c. c\<lparr>signalInput := removeAll this (signalInput c)\<rparr>"]
  obtain h2 d where 2: "modify s (\<lambda>c. c\<lparr>signalInput := removeAll this (signalInput c)\<rparr>) h1 = Inr h2"
    and d: "lookup h1 s = Some d" and l2: "length h2 = length h1"
    and k2: "\<And>b. lookup h2 b = (if b = s then Some (d\<lparr>signalInput := removeAll this (signalInput d)\<rparr>) else lookup h1 b)"
    by blast
  have "disconnectSlot this s h = Inr h2" by (simp add: disconnectSlot_def 1 2)
  moreover have "length h2 = length h" by (simp add: l1 l2)
  moreover have "live h2 b = live h b" for b
    using c d by (auto simp: live_def k1 k2)
  moreover have "state_of h2 b = state_of h b" for b
    using c d by (auto simp: state_of_def k1 k2 split: if_splits)
  moreover have "outputs_of h2 b = (if b = this then removeAll s (outputs_of h this) else outputs_of h b)" for b
    using c d by (auto simp: outputs_of_def k1 k2 split: if_splits)
  moreover have "inputs_of h2 b = (if b = s then removeAll this (inputs_of h s) else inputs_of h b)" for b
    using c d by (auto simp: inputs_of_def k1 k2 split: if_splits)
  ultimately show ?thesis by blast
qed

text \<open>A store is determined by its readings.\<close>

lemma heap_eq_readings:
  assumes "length h' = length h" and "\<And>b. live h' b = live h b" and "\<And>b. state_of h' b = state_of h b"
    and "\<And>b. outputs_of h' b = outputs_of h b" and "\<And>b. inputs_of h' b = inputs_of h b"
  shows "h' = h"
proof (rule heap_eqI)
  show "length h' = length h" by fact
  fix b
  show "lookup h' b = lookup h b"
  proof (cases "lookup h b")
    case None
    then show ?thesis using assms(2) [of b] by (simp add: live_def)
  next
    case (Some c)
    with assms(2) [of b] obtain c' where c': "lookup h' b = Some c'" by (auto simp: live_def)
    have "state c' = state c" using assms(3) [of b] Some c' by (simp add: state_of_def)
    moreover have "slotOutput c' = slotOutput c" using assms(4) [of b] Some c' by (simp add: outputs_of_def)
    moreover have "signalInput c' = signalInput c" using assms(5) [of b] Some c' by (simp add: inputs_of_def)
    ultimately have "c' = c" by simp
    then show ?thesis using Some c' by simp
  qed
qed

lemma connectSlot_Inr: "connectSlot v this s h = Inr h' \<Longrightarrow> live h this \<and> live h s"
  by (auto simp: connectSlot_def modify_alt live_def lookup_update bindE_eq_Inr split: option.splits if_splits)

lemma disconnectSlot_Inr: "disconnectSlot this s h = Inr h' \<Longrightarrow> live h this \<and> live h s"
  by (auto simp: disconnectSlot_def modify_alt live_def lookup_update bindE_eq_Inr split: option.splits if_splits)

lemma push_set [simp]: "set (push v x xs) = insert x (set xs)"
  by (cases v) auto

lemma connectSlot_symmetric:
  assumes "symmetric h" and "connectSlot v this s h = Inr h'"
  shows "symmetric h'"
proof -
  from assms(2) have l: "live h this" "live h s" by (auto dest: connectSlot_Inr)
  from connectSlot_live [OF l, of v] assms(2)
  have lv: "\<And>b. live h' b = live h b"
    and out: "\<And>b. outputs_of h' b = (if b = this then push v s (outputs_of h this) else outputs_of h b)"
    and inp: "\<And>b. inputs_of h' b = (if b = s then push v this (inputs_of h s) else inputs_of h b)"
    by auto
  show ?thesis
    unfolding symmetric_def
  proof (intro allI impI)
    fix a b assume "live h' a" "live h' b"
    then have "a \<in> set (inputs_of h b) \<longleftrightarrow> b \<in> set (outputs_of h a)"
      using assms(1) by (simp add: symmetric_def lv)
    then show "a \<in> set (inputs_of h' b) \<longleftrightarrow> b \<in> set (outputs_of h' a)"
      by (auto simp: out inp)
  qed
qed

lemma disconnectSlot_symmetric:
  assumes "symmetric h" and "disconnectSlot this s h = Inr h'"
  shows "symmetric h'"
proof -
  from assms(2) have l: "live h this" "live h s" by (auto dest: disconnectSlot_Inr)
  from disconnectSlot_live [OF l] assms(2)
  have lv: "\<And>b. live h' b = live h b"
    and out: "\<And>b. outputs_of h' b = (if b = this then removeAll s (outputs_of h this) else outputs_of h b)"
    and inp: "\<And>b. inputs_of h' b = (if b = s then removeAll this (inputs_of h s) else inputs_of h b)"
    by auto
  show ?thesis
    unfolding symmetric_def
  proof (intro allI impI)
    fix a b assume "live h' a" "live h' b"
    then have "a \<in> set (inputs_of h b) \<longleftrightarrow> b \<in> set (outputs_of h a)"
      using assms(1) by (simp add: symmetric_def lv)
    then show "a \<in> set (inputs_of h' b) \<longleftrightarrow> b \<in> set (outputs_of h' a)"
      by (auto simp: out inp)
  qed
qed

text \<open>The accessors of the classes, in terms of the readings.\<close>

lemma accessors_readings:
  "getState h a = (if live h a then Inr (state_of h a) else Inl InvalidReference)"
  "getIputs h a = (if live h a then Inr (inputs_of h a) else Inl InvalidReference)"
  "getOutputs h a = (if live h a then Inr (outputs_of h a) else Inl InvalidReference)"
  by (auto simp: getState_alt getIputs_alt getOutputs_alt live_def state_of_def inputs_of_def
      outputs_of_def split: option.splits)

text \<open>What the accessors return after an edge is made or removed.\<close>

lemma connectSlot_accessors:
  assumes "live h this" and "live h s"
  shows "\<exists>h'. connectSlot v this s h = Inr h' \<and> length h' = length h \<and>
           (\<forall>x. live h' x = live h x) \<and> (\<forall>x. getState h' x = getState h x) \<and>
           (\<forall>x. getOutputs h' x = (if x = this then Inr (push v s (outputs_of h this)) else getOutputs h x)) \<and>
           (\<forall>x. getIputs h' x = (if x = s then Inr (push v this (inputs_of h s)) else getIputs h x)) \<and>
           s \<in> set (outputs_of h' this) \<and> this \<in> set (inputs_of h' s)"
proof -
  from connectSlot_live [OF assms, of v] obtain h' where 1: "connectSlot v this s h = Inr h'"
    and len: "length h' = length h" and lv: "\<And>b. live h' b = live h b"
    and st: "\<And>b. state_of h' b = state_of h b"
    and out: "\<And>b. outputs_of h' b = (if b = this then push v s (outputs_of h this) else outputs_of h b)"
    and inp: "\<And>b. inputs_of h' b = (if b = s then push v this (inputs_of h s) else inputs_of h b)"
    by blast
  have "getState h' x = getState h x" for x by (simp add: accessors_readings lv st)
  moreover have "getOutputs h' x = (if x = this then Inr (push v s (outputs_of h this)) else getOutputs h x)" for x
    using assms by (simp add: accessors_readings lv out)
  moreover have "getIputs h' x = (if x = s then Inr (push v this (inputs_of h s)) else getIputs h x)" for x
    using assms by (simp add: accessors_readings lv inp)
  moreover have "s \<in> set (outputs_of h' this)" "this \<in> set (inputs_of h' s)"
    by (simp_all add: out inp)
  ultimately show ?thesis using 1 len lv by blast
qed

lemma disconnectSlot_accessors:
  assumes "live h this" and "live h s"
  shows "\<exists>h'. disconnectSlot this s h = Inr h' \<and> length h' = length h \<and>
           (\<forall>x. live h' x = live h x) \<and> (\<forall>x. getState h' x = getState h x) \<and>
           (\<forall>x. getOutputs h' x = (if x = this then Inr (removeAll s (outputs_of h this)) else getOutputs h x)) \<and>
           (\<forall>x. getIputs h' x = (if x = s then Inr (removeAll this (inputs_of h s)) else getIputs h x)) \<and>
           s \<notin> set (outputs_of h' this) \<and> this \<notin> set (inputs_of h' s)"
proof -
  from disconnectSlot_live [OF assms] obtain h' where 1: "disconnectSlot this s h = Inr h'"
    and len: "length h' = length h" and lv: "\<And>b. live h' b = live h b"
    and st: "\<And>b. state_of h' b = state_of h b"
    and out: "\<And>b. outputs_of h' b = (if b = this then removeAll s (outputs_of h this) else outputs_of h b)"
    and inp: "\<And>b. inputs_of h' b = (if b = s then removeAll this (inputs_of h s) else inputs_of h b)"
    by blast
  have "getState h' x = getState h x" for x by (simp add: accessors_readings lv st)
  moreover have "getOutputs h' x = (if x = this then Inr (removeAll s (outputs_of h this)) else getOutputs h x)" for x
    using assms by (simp add: accessors_readings lv out)
  moreover have "getIputs h' x = (if x = s then Inr (removeAll this (inputs_of h s)) else getIputs h x)" for x
    using assms by (simp add: accessors_readings lv inp)
  moreover have "s \<notin> set (outputs_of h' this)" "this \<notin> set (inputs_of h' s)"
    by (simp_all add: out inp)
  ultimately show ?thesis using 1 len lv by blast
qed

lemma symmetric_three:
  "symmetric [Some \<lparr>state = 4 :: 8 word, slotOutput = [1], signalInput = [1, 2]\<rparr>,
              Some \<lparr>state = 1, slotOutput = [0], signalInput = [0]\<rparr>,
              Some \<lparr>state = 2, slotOutput = [0], signalInput = []\<rparr>]"
  by (auto simp: symmetric_def inputs_of_def outputs_of_def lookup_def nth_Cons' split: if_splits)

subsection \<open>Small words\<close>

lemma word_2_neq_3: "(2::'a::len word) \<noteq> 3"
proof
  assume "(2::'a word) = 3"
  moreover have "even (2::'a word)" by simp
  moreover have "odd (3::'a word)" by simp
  ultimately show False by simp
qed

lemma bit_word_1: "bit (1::'a::len word) k \<longleftrightarrow> k = 0"
  by (simp add: bit_1_iff)

lemma bit_word_2: "2 \<le> LENGTH('a::len) \<Longrightarrow> bit (2::'a word) k \<longleftrightarrow> k = 1"
  using bit_2_iff [where ?'a = "'a word"] by fastforce

lemma bit_word_3:
  assumes "2 \<le> LENGTH('a::len)"
  shows "bit (3::'a word) k \<longleftrightarrow> k < 2"
proof -
  have "(3::'a word) = 1 OR 2" by simp
  then have "bit (3::'a word) k \<longleftrightarrow> bit (1::'a word) k \<or> bit (2::'a word) k"
    by (simp only: bit_or_iff)
  then show ?thesis using bit_word_2 [OF assms, of k] by (auto simp: bit_word_1)
qed

lemma word_1_neq_3:
  assumes "2 \<le> LENGTH('a::len)"
  shows "(1::'a word) \<noteq> 3"
proof
  assume eq: "(1::'a word) = 3"
  have "bit (3::'a word) 1" using bit_word_3 [OF assms, of 1] by simp
  then have "bit (1::'a word) 1" by (simp only: eq)
  then show False by (simp only: bit_word_1)
qed

subsection \<open>The two-component cycle\<close>

lemma two_cycle_eq:
  "two_cycle v = Inr [Some \<lparr>state = 1 :: 'w::len word, slotOutput = [1], signalInput = [1]\<rparr>,
                      Some \<lparr>state = 2, slotOutput = [0], signalInput = [0]\<rparr>]"
  by (cases v) (simp_all add: two_cycle_def construct_def addInput_def connectSlot_def modify_alt lookup_def)

subsection \<open>Growth of the states, and termination\<close>

lemma grows_refl: "grows h h"
  by (simp add: grows_def)

lemma grows_trans:
  assumes "grows h1 h2" and "grows h2 h3"
  shows "grows h1 h3"
proof -
  have "state_of h1 a OR state_of h3 a = state_of h3 a" for a
  proof -
    have 1: "state_of h1 a OR state_of h2 a = state_of h2 a" using assms(1) by (simp add: grows_def)
    have 2: "state_of h2 a OR state_of h3 a = state_of h3 a" using assms(2) by (simp add: grows_def)
    have "state_of h1 a OR state_of h3 a = state_of h1 a OR (state_of h2 a OR state_of h3 a)"
      by (simp only: 2)
    also have "\<dots> = (state_of h1 a OR state_of h2 a) OR state_of h3 a"
      by (simp only: or.assoc)
    also have "\<dots> = state_of h3 a" by (simp only: 1 2)
    finally show ?thesis .
  qed
  then show ?thesis using assms by (simp add: grows_def)
qed

lemma grows_update:
  assumes "lookup h this = Some c"
  shows "grows h (h[this := Some (c\<lparr>state := state c OR j\<rparr>)])"
proof -
  have lt: "this < length h" using assms by (rule lookup_Some_less)
  show ?thesis
    using assms lt
    by (auto simp: grows_def live_def inputs_of_def outputs_of_def state_of_def lookup_update
        or.assoc [symmetric])
qed

lemma grows_well_formed: "grows h h' \<Longrightarrow> well_formed h \<Longrightarrow> well_formed h'"
  by (simp add: grows_def well_formed_def)

lemma foldE_rel:
  assumes refl: "\<And>w. R w w" and trans: "\<And>a b c. R a b \<Longrightarrow> R b c \<Longrightarrow> R a c"
    and step: "\<And>x w w'. f x w = Inr w' \<Longrightarrow> R w w'"
    and run: "foldE f xs w = Inr w'"
  shows "R w w'"
  using run
proof (induction xs arbitrary: w)
  case Nil
  then show ?case by (simp add: refl)
next
  case (Cons x xs)
  from Cons.prems obtain w1 where 1: "f x w = Inr w1" and 2: "foldE f xs w1 = Inr w'"
    by (auto simp: bindE_eq_Inr)
  from step [OF 1] Cons.IH [OF 2] show ?case by (rule trans)
qed

lemma tick_grows:
  "tick n this (h :: 'w::len heap, tr) = Inr (h', tr') \<Longrightarrow> grows h h'"
proof (induction n arbitrary: this h tr h' tr')
  case 0
  then show ?case by simp
next
  case (Suc n)
  from tick_Suc_Inr [OF Suc.prems] obtain c where c: "lookup h this = Some c"
    and l: "\<forall>x\<in>set (signalInput c). live h x" by blast
  let ?h1 = "h[this := Some (c\<lparr>state := state c OR join_states h (signalInput c)\<rparr>)]"
  have g1: "grows h ?h1" using c by (rule grows_update)
  show ?case
  proof (cases "state c = (state c OR join_states h (signalInput c))")
    case True
    then have "h' = h" using Suc.prems unfolding tick_Suc [OF c l] by simp
    then show ?thesis by (simp add: grows_refl)
  next
    case False
    then have "emit_body (tick n) this (?h1, tr @ [TickCall this]) = Inr (h', tr')"
      using Suc.prems unfolding tick_Suc [OF c l] by (simp add: emit_def)
    then obtain conns where
      run: "foldE (tick n) conns (?h1, tr @ [TickCall this, EmitCall this]) = Inr (h', tr')"
      by (auto simp: emit_body_def bindE_eq_Inr)
    have "grows (fst (?h1, tr @ [TickCall this, EmitCall this])) (fst (h', tr'))"
    proof (rule foldE_rel [where R = "\<lambda>w w'. grows (fst w) (fst w')" and f = "tick n", OF _ _ _ run])
      show "grows (fst w) (fst w)" for w :: "'w world" by (rule grows_refl)
      show "grows (fst a) (fst b) \<Longrightarrow> grows (fst b) (fst c) \<Longrightarrow> grows (fst a) (fst c)"
        for a b c :: "'w world" by (rule grows_trans)
      show "grows (fst w) (fst w')" if "tick n x w = Inr w'" for x and w w' :: "'w world"
        using Suc.IH [of x "fst w" "snd w" "fst w'" "snd w'"] that by simp
    qed
    then have "grows ?h1 h'" by simp
    with g1 show ?thesis by (rule grows_trans)
  qed
qed

lemma ticks_grow:
  assumes "foldE (tick n) xs (h :: 'w::len heap, tr) = Inr (h', tr')"
  shows "grows h h'"
proof -
  have "grows (fst (h, tr)) (fst (h', tr'))"
  proof (rule foldE_rel [where R = "\<lambda>w w'. grows (fst w) (fst w')" and f = "tick n", OF _ _ _ assms])
    show "grows (fst w) (fst w)" for w :: "'w world" by (rule grows_refl)
    show "grows (fst a) (fst b) \<Longrightarrow> grows (fst b) (fst c) \<Longrightarrow> grows (fst a) (fst c)"
      for a b c :: "'w world" by (rule grows_trans)
    show "grows (fst w) (fst w')" if "tick n x w = Inr w'" for x and w w' :: "'w world"
      using tick_grows [of n x "fst w" "snd w" "fst w'" "snd w'"] that by simp
  qed
  then show ?thesis by simp
qed

lemma unat_NOT_mono:
  assumes "s OR s' = (s' :: 'w::len word)"
  shows "unat (NOT s') \<le> unat (NOT s)"
proof -
  have "NOT s' = NOT s AND NOT s'" using assms by (metis bit.de_Morgan_disj)
  then have "NOT s' \<le> NOT s" by (metis word_and_le2)
  then show ?thesis by (simp add: word_le_nat_alt)
qed

lemma unat_NOT_strict:
  assumes "s OR s' = (s' :: 'w::len word)" and "s \<noteq> s'"
  shows "unat (NOT s') < unat (NOT s)"
proof -
  have "unat (NOT s') \<le> unat (NOT s)" using assms(1) by (rule unat_NOT_mono)
  moreover have "unat (NOT s') \<noteq> unat (NOT s)"
    using assms(2) by (metis bit.double_compl word_unat_eq_iff)
  ultimately show ?thesis by simp
qed

lemma grows_slack: "grows h h' \<Longrightarrow> slack h' \<le> slack h"
  unfolding slack_def grows_def
  by (auto intro!: sum_mono unat_NOT_mono)

lemma grows_slack_strict:
  assumes "grows h h'" and "a < length h" and "state_of h a \<noteq> state_of h' a"
  shows "slack h' < slack h"
proof -
  have len: "length h' = length h" using assms(1) by (simp add: grows_def)
  have le: "\<forall>x\<in>{..<length h}. unat (NOT (state_of h' x)) \<le> unat (NOT (state_of h x))"
    using assms(1) by (auto simp: grows_def intro!: unat_NOT_mono)
  have "state_of h a OR state_of h' a = state_of h' a" using assms(1) by (simp add: grows_def)
  then have "unat (NOT (state_of h' a)) < unat (NOT (state_of h a))"
    using assms(3) by (rule unat_NOT_strict)
  then have "\<exists>x\<in>{..<length h}. unat (NOT (state_of h' x)) < unat (NOT (state_of h x))"
    using assms(2) by blast
  with le have "(\<Sum>x<length h. unat (NOT (state_of h' x))) < (\<Sum>x<length h. unat (NOT (state_of h x)))"
    by (intro sum_strict_mono_ex1) auto
  then show ?thesis by (simp add: slack_def len)
qed

lemma foldE_tick_total:
  assumes tk: "\<And>x (h :: 'w::len heap) tr. well_formed h \<Longrightarrow> live h x \<Longrightarrow> slack h < n
                 \<Longrightarrow> \<exists>w'. tick n x (h, tr) = Inr w'"
    and "well_formed (h :: 'w heap)" and "\<forall>x\<in>set xs. live h x" and "slack h < n"
  shows "\<exists>w'. foldE (tick n) xs (h, tr) = Inr w'"
  using assms(2-)
proof (induction xs arbitrary: h tr)
  case Nil
  show ?case by simp
next
  case (Cons x xs)
  from tk [of h x tr] Cons.prems obtain h1 tr1 where 1: "tick n x (h, tr) = Inr (h1, tr1)"
    by auto
  then have g: "grows h h1" by (rule tick_grows)
  have "well_formed h1" using g Cons.prems(1) by (rule grows_well_formed)
  moreover have "\<forall>y\<in>set xs. live h1 y" using g Cons.prems(2) by (simp add: grows_def)
  moreover have "slack h1 < n" using grows_slack [OF g] Cons.prems(3) by simp
  ultimately obtain w' where "foldE (tick n) xs (h1, tr1) = Inr w'"
    using Cons.IH by blast
  then show ?case using 1 by simp
qed

lemma tick_total:
  "well_formed (h :: 'w::len heap) \<Longrightarrow> live h this \<Longrightarrow> slack h < n \<Longrightarrow> \<exists>w'. tick n this (h, tr) = Inr w'"
proof (induction n arbitrary: this h tr)
  case 0
  then show ?case by simp
next
  case (Suc n)
  from Suc.prems(2) obtain c where c: "lookup h this = Some c" by (auto simp: live_def)
  then have io: "inputs_of h this = signalInput c" "outputs_of h this = slotOutput c"
    by (simp_all add: inputs_of_def outputs_of_def)
  have l: "\<forall>x\<in>set (signalInput c). live h x"
    using Suc.prems(1,2) io by (auto simp: well_formed_def)
  let ?s = "state c OR join_states h (signalInput c)"
  let ?h1 = "h[this := Some (c\<lparr>state := ?s\<rparr>)]"
  show ?case
  proof (cases "state c = ?s")
    case True
    then show ?thesis unfolding tick_Suc [OF c l] by simp
  next
    case False
    have lt: "this < length h" using c by (rule lookup_Some_less)
    have g: "grows h ?h1" using c by (rule grows_update)
    have "state_of h this \<noteq> state_of ?h1 this"
      using False c lt by (simp add: state_of_def lookup_update)
    with g lt have "slack ?h1 < slack h" by (rule grows_slack_strict)
    then have s1: "slack ?h1 < n" using Suc.prems(3) by simp
    have wf1: "well_formed ?h1" using g Suc.prems(1) by (rule grows_well_formed)
    have out1: "getOutputs ?h1 this = Inr (slotOutput c)"
      using lt by (simp add: getOutputs_alt lookup_update)
    have "\<forall>x\<in>set (slotOutput c). live h x"
      using Suc.prems(1,2) io by (auto simp: well_formed_def)
    then have l1: "\<forall>x\<in>set (slotOutput c). live ?h1 x" using g by (simp add: grows_def)
    from foldE_tick_total [where n = n, OF Suc.IH wf1 l1 s1]
    obtain w' where "foldE (tick n) (slotOutput c) (?h1, tr @ [TickCall this, EmitCall this]) = Inr w'"
      by blast
    then show ?thesis
      using False unfolding tick_Suc [OF c l] by (simp add: emit_def emit_body_def out1)
  qed
qed

lemma ticks_total:
  assumes "well_formed (h :: 'w::len heap)" and "\<forall>x\<in>set xs. live h x" and "slack h < n"
  shows "\<exists>w'. foldE (tick n) xs (h, tr) = Inr w'"
  using tick_total assms by (rule foldE_tick_total [where n = n])

lemma emit_total:
  assumes "well_formed (h :: 'w::len heap)" and "live h this" and "slack h < n"
  shows "\<exists>w'. emit n this (h, tr) = Inr w'"
proof -
  from assms(2) obtain c where c: "lookup h this = Some c" by (auto simp: live_def)
  then have "outputs_of h this = slotOutput c" by (simp add: outputs_of_def)
  then have "\<forall>x\<in>set (slotOutput c). live h x"
    using assms(1,2) by (auto simp: well_formed_def)
  from ticks_total [OF assms(1) this assms(3)] show ?thesis
    by (simp add: emit_def emit_body_def getOutputs_alt c)
qed

lemma getState_live: "getState h a = Inr s \<longleftrightarrow> live h a \<and> state_of h a = s"
  by (auto simp: getState_alt live_def state_of_def split: option.splits)

lemma wf_cycle2:
  "well_formed [Some \<lparr>state = 1 :: 2 word, slotOutput = [1], signalInput = [1]\<rparr>,
                Some \<lparr>state = 2, slotOutput = [0], signalInput = [0]\<rparr>]"
  by (auto simp: well_formed_def live_def inputs_of_def outputs_of_def lookup_def nth_Cons' split: if_splits)

lemma slack_cycle2:
  "slack [Some \<lparr>state = 1 :: 2 word, slotOutput = [1], signalInput = [1]\<rparr>,
          Some \<lparr>state = 2, slotOutput = [0], signalInput = [0]\<rparr>] = 3"
  by code_simp

subsection \<open>Loops of connections\<close>

lemma pushes_Nil [simp]: "pushes v [] xs = xs"
  by (simp add: pushes_def)

lemma pushes_Cons [simp]: "pushes v (y # ys) xs = pushes v ys (push v y xs)"
  by (simp add: pushes_def)



lemma mset_push [simp]: "mset (push v x xs) = add_mset x (mset xs)"
  by (cases v) simp_all

lemma mset_pushes [simp]: "mset (pushes v ys xs) = mset ys + mset xs"
  by (induction ys arbitrary: xs) simp_all

lemma set_pushes [simp]: "set (pushes v ys xs) = set ys \<union> set xs"
  by (induction ys arbitrary: xs) auto

lemma addOutput_loop:
  assumes "live h this" and "\<forall>s\<in>set ss. live h s"
  shows "\<exists>h'. foldE (\<lambda>s. connectSlot v this s) ss h = Inr h' \<and> length h' = length h \<and>
           (\<forall>b. live h' b = live h b) \<and> (\<forall>b. state_of h' b = state_of h b) \<and>
           (\<forall>b. outputs_of h' b = (if b = this then pushes v ss (outputs_of h this) else outputs_of h b)) \<and>
           (\<forall>b. inputs_of h' b = pushes v (replicate (count_list ss b) this) (inputs_of h b))"
  using assms
proof (induction ss arbitrary: h)
  case Nil
  then show ?case by simp
next
  case (Cons s ss)
  from Cons.prems have "live h this" "live h s" by simp_all
  from connectSlot_live [OF this, of v] obtain h1 where 1: "connectSlot v this s h = Inr h1"
    and len: "length h1 = length h" and lv: "\<And>b. live h1 b = live h b"
    and st: "\<And>b. state_of h1 b = state_of h b"
    and out: "\<And>b. outputs_of h1 b = (if b = this then push v s (outputs_of h this) else outputs_of h b)"
    and inp: "\<And>b. inputs_of h1 b = (if b = s then push v this (inputs_of h s) else inputs_of h b)"
    by blast
  have "live h1 this" "\<forall>s\<in>set ss. live h1 s" using Cons.prems by (simp_all add: lv)
  from Cons.IH [OF this] obtain h' where 2: "foldE (\<lambda>s. connectSlot v this s) ss h1 = Inr h'"
    and len': "length h' = length h1" and lv': "\<And>b. live h' b = live h1 b"
    and st': "\<And>b. state_of h' b = state_of h1 b"
    and out': "\<And>b. outputs_of h' b = (if b = this then pushes v ss (outputs_of h1 this) else outputs_of h1 b)"
    and inp': "\<And>b. inputs_of h' b = pushes v (replicate (count_list ss b) this) (inputs_of h1 b)"
    by blast
  have "foldE (\<lambda>s. connectSlot v this s) (s # ss) h = Inr h'" using 1 2 by simp
  moreover have "length h' = length h" by (simp add: len len')
  moreover have "\<forall>b. live h' b = live h b" by (simp add: lv lv')
  moreover have "\<forall>b. state_of h' b = state_of h b" by (simp add: st st')
  moreover have "\<forall>b. outputs_of h' b = (if b = this then pushes v (s # ss) (outputs_of h this) else outputs_of h b)"
    by (simp add: out out')
  moreover have "\<forall>b. inputs_of h' b = pushes v (replicate (count_list (s # ss) b) this) (inputs_of h b)"
    by (simp add: inp inp')
  ultimately show ?case by blast
qed

lemma addInput_loop:
  assumes "live h this" and "\<forall>s\<in>set ss. live h s"
  shows "\<exists>h'. foldE (\<lambda>sender. connectSlot v sender this) ss h = Inr h' \<and> length h' = length h \<and>
           (\<forall>b. live h' b = live h b) \<and> (\<forall>b. state_of h' b = state_of h b) \<and>
           (\<forall>b. inputs_of h' b = (if b = this then pushes v ss (inputs_of h this) else inputs_of h b)) \<and>
           (\<forall>b. outputs_of h' b = pushes v (replicate (count_list ss b) this) (outputs_of h b))"
  using assms
proof (induction ss arbitrary: h)
  case Nil
  then show ?case by simp
next
  case (Cons s ss)
  from Cons.prems have "live h s" "live h this" by simp_all
  from connectSlot_live [OF this, of v] obtain h1 where 1: "connectSlot v s this h = Inr h1"
    and len: "length h1 = length h" and lv: "\<And>b. live h1 b = live h b"
    and st: "\<And>b. state_of h1 b = state_of h b"
    and out: "\<And>b. outputs_of h1 b = (if b = s then push v this (outputs_of h s) else outputs_of h b)"
    and inp: "\<And>b. inputs_of h1 b = (if b = this then push v s (inputs_of h this) else inputs_of h b)"
    by blast
  have "live h1 this" "\<forall>s\<in>set ss. live h1 s" using Cons.prems by (simp_all add: lv)
  from Cons.IH [OF this] obtain h' where 2: "foldE (\<lambda>sender. connectSlot v sender this) ss h1 = Inr h'"
    and len': "length h' = length h1" and lv': "\<And>b. live h' b = live h1 b"
    and st': "\<And>b. state_of h' b = state_of h1 b"
    and inp': "\<And>b. inputs_of h' b = (if b = this then pushes v ss (inputs_of h1 this) else inputs_of h1 b)"
    and out': "\<And>b. outputs_of h' b = pushes v (replicate (count_list ss b) this) (outputs_of h1 b)"
    by blast
  have "foldE (\<lambda>sender. connectSlot v sender this) (s # ss) h = Inr h'" using 1 2 by simp
  moreover have "length h' = length h" by (simp add: len len')
  moreover have "\<forall>b. live h' b = live h b" by (simp add: lv lv')
  moreover have "\<forall>b. state_of h' b = state_of h b" by (simp add: st st')
  moreover have "\<forall>b. inputs_of h' b = (if b = this then pushes v (s # ss) (inputs_of h this) else inputs_of h b)"
    by (simp add: inp inp')
  moreover have "\<forall>b. outputs_of h' b = pushes v (replicate (count_list (s # ss) b) this) (outputs_of h b)"
    by (simp add: out out')
  ultimately show ?case by blast
qed

lemma foldE_Inr_all:
  assumes "\<And>x s s'. f x s = Inr s' \<Longrightarrow> P x s" and "\<And>x y s s'. f x s = Inr s' \<Longrightarrow> P y s' \<Longrightarrow> P y s"
    and "foldE f xs s = Inr s'"
  shows "\<forall>x\<in>set xs. P x s"
  using assms(3)
proof (induction xs arbitrary: s)
  case Nil
  show ?case by simp
next
  case (Cons x xs)
  from Cons.prems obtain s1 where 1: "f x s = Inr s1" and 2: "foldE f xs s1 = Inr s'"
    by (auto simp: bindE_eq_Inr)
  from Cons.IH [OF 2] have "\<forall>y\<in>set xs. P y s1" .
  then have "\<forall>y\<in>set xs. P y s" using assms(2) [OF 1] by blast
  then show ?case using assms(1) [OF 1] by simp
qed

lemma connect_loop_Inr:
  assumes "foldE (\<lambda>s. connectSlot v (p s) (q s)) ss h = Inr h'"
  shows "\<forall>s\<in>set ss. live h (p s) \<and> live h (q s)"
proof (rule foldE_Inr_all [where f = "\<lambda>s. connectSlot v (p s) (q s)", OF _ _ assms])
  show "live h (p x) \<and> live h (q x)" if "connectSlot v (p x) (q x) h = Inr h'" for x h h'
    using that by (rule connectSlot_Inr)
  show "live h (p y) \<and> live h (q y)"
    if "connectSlot v (p x) (q x) h = Inr h'" "live h' (p y) \<and> live h' (q y)" for x y h h'
  proof -
    from that(1) have "live h (p x)" "live h (q x)" by (auto dest: connectSlot_Inr)
    from connectSlot_live [OF this, of v] that show ?thesis by auto
  qed
qed

subsection \<open>The constructors\<close>

lemma construct_readings:
  "construct iv h = (this, h0) \<Longrightarrow>
     this = length h \<and> length h0 = Suc (length h) \<and>
     (\<forall>b. live h0 b = (b = length h \<or> live h b)) \<and>
     (\<forall>b. state_of h0 b = (if b = length h then of_nat iv else state_of h b)) \<and>
     (\<forall>b. inputs_of h0 b = (if b = length h then [] else inputs_of h b)) \<and>
     (\<forall>b. outputs_of h0 b = (if b = length h then [] else outputs_of h b))"
  by (auto simp: construct_def live_def state_of_def inputs_of_def outputs_of_def lookup_snoc)

lemma not_live_length [simp]: "\<not> live h (length h)"
  by (simp add: live_def)

lemma well_formed_inputs_live: "well_formed h \<Longrightarrow> live h a \<Longrightarrow> x \<in> set (inputs_of h a) \<Longrightarrow> live h x"
  by (auto simp: well_formed_def)

lemma well_formed_outputs_live: "well_formed h \<Longrightarrow> live h a \<Longrightarrow> x \<in> set (outputs_of h a) \<Longrightarrow> live h x"
  by (auto simp: well_formed_def)

lemma getIputs_live: "live h a \<Longrightarrow> getIputs h a = Inr (inputs_of h a)"
  by (auto simp: getIputs_alt live_def inputs_of_def)

lemma getOutputs_live: "live h a \<Longrightarrow> getOutputs h a = Inr (outputs_of h a)"
  by (auto simp: getOutputs_alt live_def outputs_of_def)


lemma addInput_fun: "addInput v this = (\<lambda>sender. connectSlot v sender this)"
  by (rule ext)+ (simp add: addInput_def)

lemma addOutput_fun: "addOutput v this = connectSlot v this"
  by (rule ext)+ (simp add: addOutput_def)







subsection \<open>The destructor\<close>

lemma modify_loop:
  assumes "\<forall>x\<in>set xs. live h x" and idem: "\<And>c. f (f c) = f c"
  shows "\<exists>h'. foldE (\<lambda>x. modify x f) xs h = Inr h' \<and> length h' = length h \<and>
           (\<forall>b. lookup h' b = (if b \<in> set xs then map_option f (lookup h b) else lookup h b))"
  using assms(1)
proof (induction xs arbitrary: h)
  case Nil
  then show ?case by simp
next
  case (Cons x xs)
  from Cons.prems have "live h x" by simp
  from modify_live [OF this, of f] obtain h1 c where 1: "modify x f h = Inr h1"
    and c: "lookup h x = Some c" and len: "length h1 = length h"
    and k: "\<And>b. lookup h1 b = (if b = x then Some (f c) else lookup h b)"
    by blast
  have "\<forall>y\<in>set xs. live h1 y" using Cons.prems by (auto simp: live_def k)
  from Cons.IH [OF this] obtain h' where 2: "foldE (\<lambda>x. modify x f) xs h1 = Inr h'"
    and len': "length h' = length h1"
    and k': "\<And>b. lookup h' b = (if b \<in> set xs then map_option f (lookup h1 b) else lookup h1 b)"
    by blast
  have "foldE (\<lambda>x. modify x f) (x # xs) h = Inr h'" using 1 2 by simp
  moreover have "length h' = length h" by (simp add: len len')
  moreover have "\<forall>b. lookup h' b = (if b \<in> set (x # xs) then map_option f (lookup h b) else lookup h b)"
    using c by (simp add: k k' idem)
  ultimately show ?case by blast
qed

lemma symmetricD:
  "symmetric h \<Longrightarrow> live h a \<Longrightarrow> live h b \<Longrightarrow> a \<in> set (inputs_of h b) \<longleftrightarrow> b \<in> set (outputs_of h a)"
  by (simp add: symmetric_def)

lemma destroy_readings:
  assumes "well_formed h" and "symmetric h" and "live h this"
  shows "\<exists>h'. destroy this h = Inr h' \<and> length h' = length h \<and>
           (\<forall>b. live h' b = (live h b \<and> b \<noteq> this)) \<and>
           (\<forall>b. b \<noteq> this \<longrightarrow> state_of h' b = state_of h b \<and>
                 inputs_of h' b = removeAll this (inputs_of h b) \<and>
                 outputs_of h' b = removeAll this (outputs_of h b))"
proof -
  let ?f1 = "\<lambda>c :: 'a comp. c\<lparr>signalInput := removeAll this (signalInput c)\<rparr>"
  let ?f2 = "\<lambda>c :: 'a comp. c\<lparr>slotOutput := removeAll this (slotOutput c)\<rparr>"
  let ?conns = "outputs_of h this"
  have g0: "getOutputs h this = Inr ?conns" using assms(3) by (rule getOutputs_live)
  have "\<forall>x\<in>set ?conns. live h x" using well_formed_outputs_live [OF assms(1,3)] by blast
  from modify_loop [OF this, of ?f1] obtain h1 where
    1: "foldE (\<lambda>x. modify x ?f1) ?conns h = Inr h1" and len1: "length h1 = length h"
    and k1: "\<And>b. lookup h1 b = (if b \<in> set ?conns then map_option ?f1 (lookup h b) else lookup h b)"
    by auto
  have lv1: "live h1 b = live h b" for b by (simp add: live_def k1)
  let ?senders = "inputs_of h1 this"
  have in1: "inputs_of h1 b = (if b \<in> set ?conns then removeAll this (inputs_of h b) else inputs_of h b)" for b
    by (cases "lookup h b") (simp_all add: inputs_of_def k1)
  have sub: "set ?senders \<subseteq> set (inputs_of h this)"
    by (auto simp: in1 split: if_splits)
  have g1: "getIputs h1 this = Inr ?senders" using assms(3) by (intro getIputs_live) (simp add: lv1)
  have "\<forall>x\<in>set ?senders. live h1 x"
    using well_formed_inputs_live [OF assms(1,3)] sub by (auto simp: lv1)
  from modify_loop [OF this, of ?f2] obtain h2 where
    2: "foldE (\<lambda>x. modify x ?f2) ?senders h1 = Inr h2" and len2: "length h2 = length h1"
    and k2: "\<And>b. lookup h2 b = (if b \<in> set ?senders then map_option ?f2 (lookup h1 b) else lookup h1 b)"
    by auto
  have lv2: "live h2 b = live h b" for b by (simp add: live_def k2 k1)
  have "live h2 this" using assms(3) by (simp add: lv2)
  from modify_live [OF this, of "\<lambda>c. c\<lparr>slotOutput := [], signalInput := []\<rparr>"] obtain h3 where
    3: "modify this (\<lambda>c. c\<lparr>slotOutput := [], signalInput := []\<rparr>) h2 = Inr h3"
    and len3: "length h3 = length h2"
    and k3: "\<And>b. b \<noteq> this \<Longrightarrow> lookup h3 b = lookup h2 b"
    by auto
  let ?h' = "h3[this := None]"
  have lt: "this < length h" using assms(3) by (rule live_less)
  have run: "destroy this h = Inr ?h'"
    by (simp add: destroy_def g0 1 g1 2 3)
  have k': "lookup ?h' b = (if b = this then None else lookup h2 b)" for b
    using lt by (simp add: lookup_update len3 len2 len1 k3)
  have lv': "live ?h' b = (live h b \<and> b \<noteq> this)" for b
    using lv2 [of b] by (auto simp: live_def k')
  have rest: "state_of ?h' b = state_of h b \<and> inputs_of ?h' b = removeAll this (inputs_of h b) \<and>
                 outputs_of ?h' b = removeAll this (outputs_of h b)" if b: "b \<noteq> this" for b
  proof (cases "lookup h b")
    case None
    then show ?thesis using b by (simp add: state_of_def inputs_of_def outputs_of_def k' k2 k1)
  next
    case (Some c)
    then have lb: "live h b" by (simp add: live_def)
    have io: "inputs_of h b = signalInput c" "outputs_of h b = slotOutput c"
      using Some by (simp_all add: inputs_of_def outputs_of_def)
    have s1: "b \<in> set ?conns \<longleftrightarrow> this \<in> set (signalInput c)"
      using symmetricD [OF assms(2,3) lb] by (simp only: io)
    have "b \<in> set ?senders \<longleftrightarrow> b \<in> set (inputs_of h this)"
      using b by (auto simp: in1 split: if_splits)
    then have s2: "b \<in> set ?senders \<longleftrightarrow> this \<in> set (slotOutput c)"
      using symmetricD [OF assms(2) lb assms(3)] by (simp only: io)
    show ?thesis
      using b Some s1 s2 by (simp add: state_of_def inputs_of_def outputs_of_def k' k2 k1)
  qed
  from run len3 len2 len1 lv' rest show ?thesis by auto
qed

lemma destroy_invariants:
  assumes "well_formed h" and "symmetric h" and "destroy this h = Inr h'" and "live h this"
  shows "well_formed h' \<and> symmetric h'"
proof -
  from destroy_readings [OF assms(1,2,4)] assms(3)
  have lv: "\<And>b. live h' b = (live h b \<and> b \<noteq> this)"
    and inp: "\<And>b. b \<noteq> this \<Longrightarrow> inputs_of h' b = removeAll this (inputs_of h b)"
    and out: "\<And>b. b \<noteq> this \<Longrightarrow> outputs_of h' b = removeAll this (outputs_of h b)"
    by auto
  have "well_formed h'"
    unfolding well_formed_def
  proof (intro allI impI ballI)
    fix a b assume a: "live h' a" and b: "b \<in> set (inputs_of h' a) \<union> set (outputs_of h' a)"
    from a have la: "live h a" "a \<noteq> this" by (simp_all add: lv)
    from b la(2) have "b \<noteq> this" "b \<in> set (inputs_of h a) \<union> set (outputs_of h a)"
      by (auto simp: inp out)
    then show "live h' b"
      using well_formed_inputs_live [OF assms(1) la(1)] well_formed_outputs_live [OF assms(1) la(1)]
      by (auto simp: lv)
  qed
  moreover have "symmetric h'"
    unfolding symmetric_def
  proof (intro allI impI)
    fix a b assume "live h' a" "live h' b"
    then have l: "live h a" "a \<noteq> this" "live h b" "b \<noteq> this" by (simp_all add: lv)
    show "a \<in> set (inputs_of h' b) \<longleftrightarrow> b \<in> set (outputs_of h' a)"
      using symmetricD [OF assms(2) l(1) l(3)] l by (simp add: inp out)
  qed
  ultimately show ?thesis ..
qed

lemma destroy_Inr: "destroy this h = Inr h' \<Longrightarrow> live h this"
  by (auto simp: destroy_def getOutputs_alt live_def bindE_eq_Inr split: option.splits)

lemma tick_without_inputs:
  assumes "getIputs h this = Inr []"
  shows "tick (Suc n) this (h, tr) = Inr (h, tr @ [TickCall this])"
proof -
  from assms obtain c where c: "lookup h this = Some c" and i: "signalInput c = []"
    by (auto simp: getIputs_alt split: option.splits)
  have "\<forall>x\<in>set (signalInput c). live h x" by (simp add: i)
  from tick_Suc [OF c this] show ?thesis by (simp add: i)
qed

lemma line3_eq:
  "line3 v a b c = Inr [Some \<lparr>state = of_nat a :: 'w::len word, slotOutput = [1], signalInput = []\<rparr>,
                        Some \<lparr>state = of_nat b, slotOutput = [2], signalInput = [0]\<rparr>,
                        Some \<lparr>state = of_nat c, slotOutput = [], signalInput = [1]\<rparr>]"
  by (cases v) (simp_all add: line3_def construct_def addOutput_def connectSlot_def modify_alt lookup_def)

lemma line3_destroy:
  "destroy 1 [Some \<lparr>state = sa :: 'w::len word, slotOutput = [1], signalInput = []\<rparr>,
              Some \<lparr>state = sb, slotOutput = [2], signalInput = [0]\<rparr>,
              Some \<lparr>state = sc, slotOutput = [], signalInput = [1]\<rparr>]
     = Inr [Some \<lparr>state = sa, slotOutput = [], signalInput = []\<rparr>, None,
            Some \<lparr>state = sc, slotOutput = [], signalInput = []\<rparr>]"
  by (simp add: destroy_def getOutputs_alt getIputs_alt modify_alt lookup_def)

lemma wf_line3:
  "well_formed [Some \<lparr>state = 1 :: 8 word, slotOutput = [1], signalInput = []\<rparr>,
                Some \<lparr>state = 0, slotOutput = [2], signalInput = [0]\<rparr>,
                Some \<lparr>state = 0, slotOutput = [], signalInput = [1]\<rparr>]"
  by (auto simp: well_formed_def live_def inputs_of_def outputs_of_def lookup_def nth_Cons' split: if_splits)

lemma sym_line3:
  "symmetric [Some \<lparr>state = 1 :: 8 word, slotOutput = [1], signalInput = []\<rparr>,
              Some \<lparr>state = 0, slotOutput = [2], signalInput = [0]\<rparr>,
              Some \<lparr>state = 0, slotOutput = [], signalInput = [1]\<rparr>]"
  by (auto simp: symmetric_def live_def inputs_of_def outputs_of_def lookup_def nth_Cons' split: if_splits)

subsection \<open>Chains\<close>

lemma push_Nil [simp]: "push v x [] = [x]"
  by (cases v) simp_all

lemma chain_from_shape:
  assumes "is_chain m h" and "0 < m"
  shows "\<exists>h'. chain_from v k h = Inr h' \<and> is_chain (m + k) h' \<and>
           (\<forall>i<m. state_of h' i = state_of h i) \<and> (\<forall>i. m \<le> i \<longrightarrow> state_of h' i = 0)"
  using assms
proof (induction k arbitrary: m h)
  case 0
  have "state_of h i = 0" if "m \<le> i" for i
    using that 0(1) by (simp add: is_chain_def state_of_def lookup_def)
  with 0 show ?case by simp
next
  case (Suc k)
  from Suc.prems have len: "length h = m" by (simp add: is_chain_def)
  obtain h1 where c: "construct 0 h = (m, h1)" by (simp add: construct_def len)
  from construct_readings [OF c] have len1: "length h1 = Suc m"
    and lv1: "\<And>b. live h1 b = (b = m \<or> live h b)"
    and st1: "\<And>b. state_of h1 b = (if b = m then 0 else state_of h b)"
    and in1: "\<And>b. inputs_of h1 b = (if b = m then [] else inputs_of h b)"
    and out1: "\<And>b. outputs_of h1 b = (if b = m then [] else outputs_of h b)"
    by (simp_all add: len)
  have lm: "live h (m - 1)" using Suc.prems by (simp add: is_chain_def)
  have om: "outputs_of h (m - 1) = []" using Suc.prems by (simp add: is_chain_def)
  have "live h1 (m - 1)" "live h1 m" using lm by (simp_all add: lv1)
  from connectSlot_live [OF this, of v] obtain h2 where 2: "connectSlot v (m - 1) m h1 = Inr h2"
    and len2: "length h2 = length h1" and lv2: "\<And>b. live h2 b = live h1 b"
    and st2: "\<And>b. state_of h2 b = state_of h1 b"
    and out2: "\<And>b. outputs_of h2 b = (if b = m - 1 then push v m (outputs_of h1 (m - 1)) else outputs_of h1 b)"
    and in2: "\<And>b. inputs_of h2 b = (if b = m then push v (m - 1) (inputs_of h1 m) else inputs_of h1 b)"
    by blast
  have ch2: "is_chain (Suc m) h2"
    unfolding is_chain_def
  proof (intro conjI allI impI)
    show "length h2 = Suc m" by (simp add: len2 len1)
    fix i assume i: "i < Suc m"
    show "live h2 i" using i Suc.prems(1) by (auto simp: lv2 lv1 is_chain_def less_Suc_eq)
    show "inputs_of h2 i = (if i = 0 then [] else [i - 1])"
      using i Suc.prems by (auto simp: in2 in1 is_chain_def less_Suc_eq)
    show "outputs_of h2 i = (if Suc i < Suc m then [Suc i] else [])"
      using i Suc.prems om by (auto simp: out2 out1 is_chain_def less_Suc_eq)
  qed
  from Suc.IH [OF ch2] obtain h' where 3: "chain_from v k h2 = Inr h'"
    and ch': "is_chain (Suc m + k) h'"
    and s1: "\<And>i. i < Suc m \<Longrightarrow> state_of h' i = state_of h2 i"
    and s2: "\<And>i. Suc m \<le> i \<Longrightarrow> state_of h' i = 0"
    by auto
  have "chain_from v (Suc k) h = Inr h'" using 2 3 by (simp add: c addInput_def)
  moreover have "is_chain (m + Suc k) h'" using ch' by simp
  moreover have "\<forall>i<m. state_of h' i = state_of h i" by (simp add: s1 st2 st1)
  moreover have "state_of h' i = 0" if "m \<le> i" for i
  proof (cases "i = m")
    case True
    then show ?thesis by (simp add: s1 st2 st1)
  next
    case False
    with that show ?thesis by (simp add: s2)
  qed
  ultimately show ?case by blast
qed

lemma chain_shape:
  assumes "0 < N"
  shows "\<exists>h :: 'w::len heap. chain v s N = Inr h \<and> is_chain N h \<and> state_of h 0 = of_nat s \<and>
           (\<forall>i. 0 < i \<longrightarrow> state_of h i = 0)"
proof -
  from assms obtain k where N: "N = Suc k" by (cases N) auto
  let ?h = "[Some \<lparr>state = of_nat s :: 'w word, slotOutput = [], signalInput = []\<rparr>]"
  have "is_chain 1 ?h"
    by (simp add: is_chain_def live_def inputs_of_def outputs_of_def lookup_def)
  from chain_from_shape [OF this, of v k] obtain h' where "chain_from v k ?h = Inr h'"
    "is_chain (1 + k) h'" "\<forall>i<1. state_of h' i = state_of ?h i" "\<forall>i. 1 \<le> i \<longrightarrow> state_of h' i = 0"
    by auto
  then show ?thesis
    by (auto simp: chain_def N construct_def state_of_def lookup_def intro!: exI [of _ h'])
qed

lemma set_state_readings:
  assumes "lookup h k = Some c"
  shows "length (h[k := Some (c\<lparr>state := s\<rparr>)]) = length h"
    and "live (h[k := Some (c\<lparr>state := s\<rparr>)]) b = live h b"
    and "inputs_of (h[k := Some (c\<lparr>state := s\<rparr>)]) b = inputs_of h b"
    and "outputs_of (h[k := Some (c\<lparr>state := s\<rparr>)]) b = outputs_of h b"
    and "state_of (h[k := Some (c\<lparr>state := s\<rparr>)]) b = (if b = k then s else state_of h b)"
  using assms lookup_Some_less [OF assms]
  by (auto simp: live_def inputs_of_def outputs_of_def state_of_def lookup_update)

lemma chain_calls_step: "k < N \<Longrightarrow> chain_calls k N = TickCall k # EmitCall k # chain_calls (Suc k) N"
  by (simp add: chain_calls_def upt_conv_Cons)

lemma chain_calls_empty [simp]: "chain_calls N N = []"
  by (simp add: chain_calls_def)

lemma is_chain_set_state:
  "is_chain N h \<Longrightarrow> lookup h k = Some c \<Longrightarrow> is_chain N (h[k := Some (c\<lparr>state := s\<rparr>)])"
  by (simp add: is_chain_def set_state_readings)

lemma chain_tick:
  assumes "is_chain N (h :: 'w::len heap)" and "0 < k" and "k < N"
    and "\<forall>i<k. state_of h i = s" and "\<forall>i. k \<le> i \<and> i < N \<longrightarrow> state_of h i = 0"
    and "s \<noteq> 0" and "N - k \<le> n"
  shows "\<exists>h'. tick n k (h, tr) = Inr (h', tr @ chain_calls k N) \<and> is_chain N h' \<and>
           (\<forall>i<N. state_of h' i = s)"
  using assms
proof (induction n arbitrary: k h tr)
  case 0
  then show ?case by simp
next
  case (Suc n)
  from Suc.prems(1,3) have lk: "live h k" and ik: "inputs_of h k = [k - 1]"
    and ok: "outputs_of h k = (if Suc k < N then [Suc k] else [])"
    using Suc.prems(2) by (simp_all add: is_chain_def)
  from lk obtain c where c: "lookup h k = Some c" by (auto simp: live_def)
  have sig: "signalInput c = [k - 1]" using ik c by (simp add: inputs_of_def)
  have slo: "slotOutput c = (if Suc k < N then [Suc k] else [])" using ok c by (simp add: outputs_of_def)
  have lp: "live h (k - 1)" using Suc.prems(1,3) by (simp add: is_chain_def)
  have l: "\<forall>x\<in>set (signalInput c). live h x" using lp by (simp add: sig)
  have sp: "state_of h (k - 1) = s" using Suc.prems(2,4) by simp
  have sk: "state c = 0" using Suc.prems(3,5) c by (auto simp: state_of_def)
  have "join_states h [k - 1] = s" using sp by (simp only: join_states_Cons join_states_Nil) simp
  then have new: "state c OR join_states h (signalInput c) = s" by (simp only: sig sk) simp
  let ?h1 = "h[k := Some (c\<lparr>state := s\<rparr>)]"
  have ch1: "is_chain N ?h1" using Suc.prems(1) c by (rule is_chain_set_state)
  have st1: "state_of ?h1 b = (if b = k then s else state_of h b)" for b
    using c by (rule set_state_readings)
  have t: "tick (Suc n) k (h, tr) = emit n k (?h1, tr @ [TickCall k])"
    unfolding tick_Suc [OF c l] new using Suc.prems(6) by (simp add: sk)
  have out1: "getOutputs ?h1 k = Inr (if Suc k < N then [Suc k] else [])"
    using c lookup_Some_less [OF c] by (simp add: getOutputs_alt lookup_update slo)
  show ?case
  proof (cases "Suc k < N")
    case True
    have "\<exists>h'. tick n (Suc k) (?h1, tr @ [TickCall k, EmitCall k])
            = Inr (h', (tr @ [TickCall k, EmitCall k]) @ chain_calls (Suc k) N) \<and> is_chain N h' \<and>
           (\<forall>i<N. state_of h' i = s)"
    proof (rule Suc.IH [OF ch1])
      show "0 < Suc k" by simp
      show "Suc k < N" by fact
      show "\<forall>i<Suc k. state_of ?h1 i = s" using Suc.prems(4) by (auto simp: st1 less_Suc_eq)
      show "\<forall>i. Suc k \<le> i \<and> i < N \<longrightarrow> state_of ?h1 i = 0" using Suc.prems(5) by (auto simp: st1)
      show "s \<noteq> 0" by fact
      show "N - Suc k \<le> n" using Suc.prems(7) by simp
    qed
    then obtain h' where "tick n (Suc k) (?h1, tr @ [TickCall k, EmitCall k])
            = Inr (h', tr @ chain_calls k N)" "is_chain N h'" "\<forall>i<N. state_of h' i = s"
      using chain_calls_step [OF Suc.prems(3)] by auto
    then show ?thesis
      using True by (auto simp: t emit_def emit_body_def out1 simp del: tick.simps)
  next
    case False
    then have N: "N = Suc k" using Suc.prems(3) by simp
    have "chain_calls k N = [TickCall k, EmitCall k]"
      using chain_calls_step [OF Suc.prems(3)] by (simp add: N)
    moreover have "\<forall>i<N. state_of ?h1 i = s" using Suc.prems(4) by (auto simp: st1 N less_Suc_eq)
    ultimately show ?thesis
      using False ch1 by (auto simp: t emit_def emit_body_def out1 simp del: tick.simps)
  qed
qed

subsection \<open>Propagation reaches the least closed assignment\<close>

lemma or_le_trans:
  assumes "a OR b = b" and "b OR c = c"
  shows "a OR c = (c :: 'w::len word)"
proof -
  have "a OR c = a OR (b OR c)" by (simp only: assms(2))
  also have "\<dots> = (a OR b) OR c" by (simp only: or.assoc)
  also have "\<dots> = c" by (simp only: assms)
  finally show ?thesis .
qed

lemma or_le_antisym:
  assumes "a OR b = b" and "b OR a = a"
  shows "a = (b :: 'w::len word)"
proof -
  have "a = b OR a" by (simp only: assms(2))
  also have "\<dots> = a OR b" by (simp only: or.commute)
  also have "\<dots> = b" by (simp only: assms(1))
  finally show ?thesis .
qed

lemma or_le_join:
  assumes "a OR c = c" and "b OR c = c"
  shows "(a OR b) OR c = (c :: 'w::len word)"
proof -
  have "(a OR b) OR c = a OR (b OR c)" by (simp only: or.assoc)
  also have "\<dots> = c" by (simp only: assms)
  finally show ?thesis .
qed

lemma join_states_le:
  assumes "\<forall>x\<in>set xs. state_of h x OR t = t"
  shows "join_states h xs OR t = t"
  using assms by (induction xs) (simp_all add: or_le_join)

lemma join_states_member:
  "x \<in> set xs \<Longrightarrow> state_of h x OR (s OR join_states h xs) = s OR join_states h xs"
proof (induction xs)
  case Nil
  then show ?case by simp
next
  case (Cons y ys)
  show ?case
  proof (cases "x = y")
    case True
    have "state_of h y OR (s OR (state_of h y OR join_states h ys))
        = s OR ((state_of h y OR state_of h y) OR join_states h ys)"
      by (simp only: or.assoc or.left_commute)
    also have "\<dots> = s OR (state_of h y OR join_states h ys)" by (simp only: or.idem)
    finally show ?thesis using True by simp
  next
    case False
    with Cons have IH: "state_of h x OR (s OR join_states h ys) = s OR join_states h ys" by simp
    have "state_of h x OR (s OR (state_of h y OR join_states h ys))
        = state_of h y OR (state_of h x OR (s OR join_states h ys))"
      by (simp only: or.left_commute)
    also have "\<dots> = state_of h y OR (s OR join_states h ys)" by (simp only: IH)
    also have "\<dots> = s OR (state_of h y OR join_states h ys)" by (simp only: or.left_commute)
    finally show ?thesis by simp
  qed
qed

lemma grows_state: "grows h h' \<Longrightarrow> state_of h a OR state_of h' a = state_of h' a"
  by (simp add: grows_def)

lemma grows_inputs: "grows h h' \<Longrightarrow> inputs_of h' a = inputs_of h a"
  by (simp add: grows_def)

lemma grows_outputs: "grows h h' \<Longrightarrow> outputs_of h' a = outputs_of h a"
  by (simp add: grows_def)

lemma grows_live: "grows h h' \<Longrightarrow> live h' a = live h a"
  by (simp add: grows_def)

lemma grows_fed: "grows h h' \<Longrightarrow> fed h' f t = fed h f t"
  by (simp add: fed_def grows_inputs)

text \<open>The states never exceed a closed assignment that lies above the states at the start
  and under which the components ticked are fed.\<close>

lemma foldE_tick_below:
  assumes tk: "\<And>a (h :: 'w::len heap) tr h' tr'. tick n a (h, tr) = Inr (h', tr') \<Longrightarrow> grows h0 h \<Longrightarrow>
                 \<forall>x. state_of h x OR f x = f x \<Longrightarrow> fed h0 f a \<Longrightarrow> \<forall>x. state_of h' x OR f x = f x"
    and "foldE (tick n) xs (h :: 'w heap, tr) = Inr (h', tr')" and "grows h0 h"
    and "\<forall>x. state_of h x OR f x = f x" and "\<forall>t\<in>set xs. fed h0 f t"
  shows "\<forall>x. state_of h' x OR f x = f x"
  using assms(2-)
proof (induction xs arbitrary: h tr)
  case Nil
  then show ?case by simp
next
  case (Cons a xs)
  from Cons.prems(1) obtain h1 tr1 where 1: "tick n a (h, tr) = Inr (h1, tr1)"
    and 2: "foldE (tick n) xs (h1, tr1) = Inr (h', tr')"
    by (auto simp: bindE_eq_Inr)
  have b1: "\<forall>x. state_of h1 x OR f x = f x"
    using 1 Cons.prems(2,3) by (rule tk) (use Cons.prems(4) in simp)
  have g1: "grows h0 h1" using Cons.prems(2) tick_grows [OF 1] by (rule grows_trans)
  show ?case using 2 g1 b1 by (rule Cons.IH) (use Cons.prems(4) in simp)
qed

lemma tick_below:
  assumes cl: "closed h0 (f :: addr \<Rightarrow> 'w::len word)"
  shows "tick n a (h, tr) = Inr (h', tr') \<Longrightarrow> grows h0 h \<Longrightarrow>
           \<forall>x. state_of h x OR f x = f x \<Longrightarrow> fed h0 f a \<Longrightarrow> \<forall>x. state_of h' x OR f x = f x"
proof (induction n arbitrary: a h tr h' tr')
  case 0
  then show ?case by simp
next
  case (Suc n)
  from tick_Suc_Inr [OF Suc.prems(1)] obtain c where c: "lookup h a = Some c"
    and l: "\<forall>x\<in>set (signalInput c). live h x" by blast
  let ?s = "state c OR join_states h (signalInput c)"
  let ?h1 = "h[a := Some (c\<lparr>state := ?s\<rparr>)]"
  show ?case
  proof (cases "state c = ?s")
    case True
    then have "h' = h" using Suc.prems(1) unfolding tick_Suc [OF c l] by simp
    then show ?thesis using Suc.prems(3) by simp
  next
    case False
    have sa: "state_of h a = state c" using c by (simp add: state_of_def)
    have ia: "inputs_of h0 a = signalInput c"
      using grows_inputs [OF Suc.prems(2), of a] c by (simp add: inputs_of_def)
    have oa: "outputs_of h0 a = slotOutput c"
      using grows_outputs [OF Suc.prems(2), of a] c by (simp add: outputs_of_def)
    have "state_of h x OR f a = f a" if "x \<in> set (signalInput c)" for x
    proof -
      have "f x OR f a = f a" using Suc.prems(4) that by (simp add: fed_def ia)
      with Suc.prems(3) [rule_format, of x] show ?thesis by (rule or_le_trans)
    qed
    then have "join_states h (signalInput c) OR f a = f a" by (intro join_states_le) simp
    moreover have "state c OR f a = f a" using Suc.prems(3) [rule_format, of a] by (simp only: sa)
    ultimately have sle: "?s OR f a = f a" by (rule or_le_join [rotated])
    have st1: "state_of ?h1 b = (if b = a then ?s else state_of h b)" for b
      using c by (rule set_state_readings)
    have b1: "\<forall>x. state_of ?h1 x OR f x = f x" using Suc.prems(3) sle by (simp add: st1)
    have g1: "grows h0 ?h1" using Suc.prems(2) grows_update [OF c] by (rule grows_trans)
    have "f a \<noteq> state_of h0 a"
    proof
      assume eq: "f a = state_of h0 a"
      have "state_of h0 a OR state c = state c" using grows_state [OF Suc.prems(2), of a] sa by simp
      with sle eq have "?s OR state c = state c" by (simp only: or_le_trans)
      moreover have "state c OR ?s = ?s" by (simp add: or.assoc [symmetric])
      ultimately have "state c = ?s" by (rule or_le_antisym [rotated])
      with False show False ..
    qed
    then have fo: "\<forall>t\<in>set (slotOutput c). fed h0 f t" using cl by (simp add: closed_def oa)
    from False Suc.prems(1) have "emit_body (tick n) a (?h1, tr @ [TickCall a]) = Inr (h', tr')"
      unfolding tick_Suc [OF c l] by (simp add: emit_def)
    moreover have "getOutputs ?h1 a = Inr (slotOutput c)"
      using lookup_Some_less [OF c] by (simp add: getOutputs_alt lookup_update)
    ultimately have run: "foldE (tick n) (slotOutput c) (?h1, tr @ [TickCall a, EmitCall a]) = Inr (h', tr')"
      by (simp add: emit_body_def)
    show ?thesis
      using Suc.IH run g1 b1 fo by (rule foldE_tick_below [where n = n and ?h0.0 = h0 and f = f])
  qed
qed

lemma ticks_below:
  assumes "closed h0 (f :: addr \<Rightarrow> 'w::len word)"
    and "foldE (tick n) xs (h, tr) = Inr (h', tr')" and "grows h0 h"
    and "\<forall>x. state_of h x OR f x = f x" and "\<forall>t\<in>set xs. fed h0 f t"
  shows "\<forall>x. state_of h' x OR f x = f x"
  using tick_below [OF assms(1)] assms(2-) by (rule foldE_tick_below [where n = n and ?h0.0 = h0 and f = f])

lemma grows_symmetric: "grows h h' \<Longrightarrow> symmetric h \<Longrightarrow> symmetric h'"
  by (simp add: grows_def symmetric_def)

lemma closed_refl: "closed h (state_of h)"
  by (simp add: closed_def)

lemma state_changed_live:
  assumes "grows h h'" and "state_of h' i \<noteq> state_of h i"
  shows "live h i"
proof (rule ccontr)
  assume "\<not> live h i"
  then have "lookup h i = None" "lookup h' i = None"
    using grows_live [OF assms(1), of i] by (simp_all add: live_def)
  then have "state_of h' i = state_of h i" by (simp add: state_of_def)
  with assms(2) show False ..
qed

lemma inputs_live: "i \<in> set (inputs_of h t) \<Longrightarrow> live h t"
  by (cases "lookup h t") (auto simp: inputs_of_def live_def)

lemma fed_persists:
  assumes g: "grows h1 h2" and cl: "closed h1 (state_of h2)" and sy: "symmetric h1"
    and f: "fed h1 (state_of h1) t"
  shows "fed h1 (state_of h2) t"
  unfolding fed_def
proof
  fix i assume i: "i \<in> set (inputs_of h1 t)"
  show "state_of h2 i OR state_of h2 t = state_of h2 t"
  proof (cases "state_of h2 i = state_of h1 i")
    case True
    have "state_of h1 i OR state_of h1 t = state_of h1 t" using f i by (simp add: fed_def)
    then have "state_of h1 i OR state_of h2 t = state_of h2 t"
      using grows_state [OF g, of t] by (rule or_le_trans)
    then show ?thesis by (simp only: True)
  next
    case False
    then have "live h1 i" using state_changed_live [OF g] by blast
    moreover have "live h1 t" using i by (rule inputs_live)
    ultimately have "t \<in> set (outputs_of h1 i)" using symmetricD [OF sy] i by blast
    then have "fed h1 (state_of h2) t" using cl False by (simp add: closed_def)
    then show ?thesis using i by (simp add: fed_def)
  qed
qed

lemma closed_compose:
  assumes g1: "grows h h1" and c1: "closed h (state_of h1)"
    and g2: "grows h1 h2" and c2: "closed h1 (state_of h2)" and sy: "symmetric h"
  shows "closed h (state_of h2)"
  unfolding closed_def
proof (intro allI impI ballI)
  fix z t assume z: "state_of h2 z \<noteq> state_of h z" and t: "t \<in> set (outputs_of h z)"
  have t1: "t \<in> set (outputs_of h1 z)" using t by (simp add: grows_outputs [OF g1])
  have "fed h1 (state_of h2) t"
  proof (cases "state_of h2 z = state_of h1 z")
    case False
    then show ?thesis using c2 t1 by (simp add: closed_def)
  next
    case True
    then have "state_of h1 z \<noteq> state_of h z" using z by simp
    then have "fed h (state_of h1) t" using c1 t by (simp add: closed_def)
    then have "fed h1 (state_of h1) t" by (simp add: grows_fed [OF g1])
    with g2 c2 grows_symmetric [OF g1 sy] show ?thesis by (rule fed_persists)
  qed
  then show "fed h (state_of h2) t" by (simp add: grows_fed [OF g1])
qed

lemma foldE_tick_closed:
  assumes tk: "\<And>a (h :: 'w::len heap) tr h' tr'. tick n a (h, tr) = Inr (h', tr') \<Longrightarrow> symmetric h \<Longrightarrow>
                 closed h (state_of h') \<and> fed h (state_of h') a"
    and "foldE (tick n) xs (h :: 'w heap, tr) = Inr (h', tr')" and "symmetric h"
  shows "closed h (state_of h') \<and> (\<forall>t\<in>set xs. fed h (state_of h') t)"
  using assms(2-)
proof (induction xs arbitrary: h tr)
  case Nil
  then show ?case by (simp add: closed_refl)
next
  case (Cons a xs)
  from Cons.prems(1) obtain h1 tr1 where 1: "tick n a (h, tr) = Inr (h1, tr1)"
    and 2: "foldE (tick n) xs (h1, tr1) = Inr (h', tr')"
    by (auto simp: bindE_eq_Inr)
  from tk [OF 1 Cons.prems(2)] have c1: "closed h (state_of h1)" and f1: "fed h (state_of h1) a"
    by simp_all
  have g1: "grows h h1" using 1 by (rule tick_grows)
  have sy1: "symmetric h1" using g1 Cons.prems(2) by (rule grows_symmetric)
  from Cons.IH [OF 2 sy1] have c2: "closed h1 (state_of h')"
    and f2: "\<forall>t\<in>set xs. fed h1 (state_of h') t" by simp_all
  have g2: "grows h1 h'" using 2 by (rule ticks_grow)
  have "closed h (state_of h')" using g1 c1 g2 c2 Cons.prems(2) by (rule closed_compose)
  moreover have "fed h (state_of h') a"
  proof -
    have "fed h1 (state_of h1) a" using f1 by (simp add: grows_fed [OF g1])
    with g2 c2 sy1 have "fed h1 (state_of h') a" by (rule fed_persists)
    then show ?thesis by (simp add: grows_fed [OF g1])
  qed
  moreover have "\<forall>t\<in>set xs. fed h (state_of h') t" using f2 by (simp add: grows_fed [OF g1])
  ultimately show ?case by simp
qed

lemma tick_closed:
  "tick n a (h :: 'w::len heap, tr) = Inr (h', tr') \<Longrightarrow> symmetric h \<Longrightarrow>
     closed h (state_of h') \<and> fed h (state_of h') a"
proof (induction n arbitrary: a h tr h' tr')
  case 0
  then show ?case by simp
next
  case (Suc n)
  from tick_Suc_Inr [OF Suc.prems(1)] obtain c where c: "lookup h a = Some c"
    and l: "\<forall>x\<in>set (signalInput c). live h x" by blast
  let ?s = "state c OR join_states h (signalInput c)"
  let ?h1 = "h[a := Some (c\<lparr>state := ?s\<rparr>)]"
  have sa: "state_of h a = state c" using c by (simp add: state_of_def)
  have ia: "inputs_of h a = signalInput c" using c by (simp add: inputs_of_def)
  have oa: "outputs_of h a = slotOutput c" using c by (simp add: outputs_of_def)
  show ?case
  proof (cases "state c = ?s")
    case True
    then have h': "h' = h" using Suc.prems(1) unfolding tick_Suc [OF c l] by simp
    have "fed h (state_of h) a"
      unfolding fed_def
    proof
      fix i assume "i \<in> set (inputs_of h a)"
      then have "state_of h i OR ?s = ?s" by (simp add: ia join_states_member)
      then show "state_of h i OR state_of h a = state_of h a" by (simp only: sa True [symmetric])
    qed
    then show ?thesis by (simp add: h' closed_refl)
  next
    case False
    have st1: "state_of ?h1 b = (if b = a then ?s else state_of h b)" for b
      using c by (rule set_state_readings)
    have g1: "grows h ?h1" using c by (rule grows_update)
    have sy1: "symmetric ?h1" using g1 Suc.prems(2) by (rule grows_symmetric)
    from False Suc.prems(1) have "emit_body (tick n) a (?h1, tr @ [TickCall a]) = Inr (h', tr')"
      unfolding tick_Suc [OF c l] by (simp add: emit_def)
    moreover have "getOutputs ?h1 a = Inr (slotOutput c)"
      using lookup_Some_less [OF c] by (simp add: getOutputs_alt lookup_update)
    ultimately have run: "foldE (tick n) (slotOutput c) (?h1, tr @ [TickCall a, EmitCall a]) = Inr (h', tr')"
      by (simp add: emit_body_def)
    from foldE_tick_closed [where n = n, OF Suc.IH run sy1]
    have c2: "closed ?h1 (state_of h')" and f2: "\<forall>t\<in>set (slotOutput c). fed ?h1 (state_of h') t"
      by simp_all
    have g2: "grows ?h1 h'" using run by (rule ticks_grow)
    have fa1: "fed ?h1 (state_of ?h1) a"
      unfolding fed_def
    proof
      fix i assume "i \<in> set (inputs_of ?h1 a)"
      then have i: "i \<in> set (signalInput c)" by (simp add: grows_inputs [OF g1] ia)
      show "state_of ?h1 i OR state_of ?h1 a = state_of ?h1 a"
      proof (cases "i = a")
        case True
        then show ?thesis by simp
      next
        case False
        then show ?thesis using i by (simp add: st1 join_states_member)
      qed
    qed
    with g2 c2 sy1 have "fed ?h1 (state_of h') a" by (rule fed_persists)
    then have fa: "fed h (state_of h') a" by (simp add: grows_fed [OF g1])
    have "closed h (state_of h')"
      unfolding closed_def
    proof (intro allI impI ballI)
      fix z t assume z: "state_of h' z \<noteq> state_of h z" and t: "t \<in> set (outputs_of h z)"
      have "fed ?h1 (state_of h') t"
      proof (cases "state_of h' z = state_of ?h1 z")
        case False
        then show ?thesis using c2 t by (simp add: closed_def grows_outputs [OF g1])
      next
        case True
        with z have "state_of ?h1 z \<noteq> state_of h z" by simp
        then have "z = a" by (simp add: st1 split: if_splits)
        then show ?thesis using f2 t by (simp add: oa)
      qed
      then show "fed h (state_of h') t" by (simp add: grows_fed [OF g1])
    qed
    with fa show ?thesis by simp
  qed
qed

lemma ticks_closed:
  assumes "foldE (tick n) xs (h :: 'w::len heap, tr) = Inr (h', tr')" and "symmetric h"
  shows "closed h (state_of h') \<and> (\<forall>t\<in>set xs. fed h (state_of h') t)"
  using tick_closed assms by (rule foldE_tick_closed [where n = n])

subsection \<open>Stores that agree up to the order of the lists\<close>

lemma similar_refl: "similar h h"
  by (simp add: similar_def)

lemma similar_sym: "similar h h' \<Longrightarrow> similar h' h"
  by (simp add: similar_def)

lemma similar_live: "similar h h' \<Longrightarrow> live h' a = live h a"
  by (simp add: similar_def)

lemma similar_state: "similar h h' \<Longrightarrow> state_of h' a = state_of h a"
  by (simp add: similar_def)

lemma similar_inputs: "similar h h' \<Longrightarrow> mset (inputs_of h' a) = mset (inputs_of h a)"
  by (simp add: similar_def)

lemma similar_outputs: "similar h h' \<Longrightarrow> mset (outputs_of h' a) = mset (outputs_of h a)"
  by (simp add: similar_def)

lemma similar_set_inputs: "similar h h' \<Longrightarrow> set (inputs_of h' a) = set (inputs_of h a)"
  using similar_inputs [of h h' a] by (rule mset_eq_setD)

lemma similar_set_outputs: "similar h h' \<Longrightarrow> set (outputs_of h' a) = set (outputs_of h a)"
  using similar_outputs [of h h' a] by (rule mset_eq_setD)

lemma similar_fed: "similar h h' \<Longrightarrow> fed h' f t = fed h f t"
  by (simp add: fed_def similar_set_inputs)

lemma similar_closed: "similar h h' \<Longrightarrow> closed h' f = closed h f"
  by (simp add: closed_def similar_set_outputs similar_state similar_fed)

lemma similar_symmetric: "similar h h' \<Longrightarrow> symmetric h' = symmetric h"
  by (simp add: symmetric_def similar_set_outputs similar_set_inputs similar_live)

lemma similar_well_formed: "similar h h' \<Longrightarrow> well_formed h' = well_formed h"
  by (simp add: well_formed_def similar_set_outputs similar_set_inputs similar_live)

lemma similar_slack: "similar h h' \<Longrightarrow> slack h' = slack h"
  by (simp add: slack_def similar_def)

lemma ticks_below_similar:
  assumes run1: "foldE (tick n) xs (h :: 'w::len heap, tr) = Inr (h1, tr1)"
    and run2: "foldE (tick m) ys (h', tr') = Inr (h1', tr1')"
    and si: "similar h h'" and se: "set ys = set xs" and sy: "symmetric h"
  shows "\<forall>x. state_of h1' x OR state_of h1 x = state_of h1 x"
proof -
  from ticks_closed [OF run1 sy] have c: "closed h (state_of h1)"
    and f: "\<forall>t\<in>set xs. fed h (state_of h1) t" by simp_all
  have c': "closed h' (state_of h1)" using c by (simp add: similar_closed [OF si])
  have f': "\<forall>t\<in>set ys. fed h' (state_of h1) t" using f by (simp add: similar_fed [OF si] se)
  have g: "grows h h1" using run1 by (rule ticks_grow)
  have b: "\<forall>x. state_of h' x OR state_of h1 x = state_of h1 x"
    using grows_state [OF g] by (simp add: similar_state [OF si])
  from c' run2 grows_refl b f' show ?thesis by (rule ticks_below)
qed

lemma ticks_unique:
  assumes run1: "foldE (tick n) xs (h :: 'w::len heap, tr) = Inr (h1, tr1)"
    and run2: "foldE (tick m) ys (h', tr') = Inr (h1', tr1')"
    and si: "similar h h'" and se: "set ys = set xs" and sy: "symmetric h"
  shows "similar h1 h1'"
proof -
  have 1: "\<forall>x. state_of h1' x OR state_of h1 x = state_of h1 x"
    using run1 run2 si se sy by (rule ticks_below_similar)
  have sy': "symmetric h'" using sy by (simp add: similar_symmetric [OF si])
  have 2: "\<forall>x. state_of h1 x OR state_of h1' x = state_of h1' x"
    using run2 run1 similar_sym [OF si] se [symmetric] sy' by (rule ticks_below_similar)
  have st: "state_of h1' x = state_of h1 x" for x
    using 1 [rule_format, of x] 2 [rule_format, of x] by (rule or_le_antisym)
  have g: "grows h h1" using run1 by (rule ticks_grow)
  have g': "grows h' h1'" using run2 by (rule ticks_grow)
  show ?thesis
    using si g g' st by (simp add: similar_def grows_def)
qed

lemma bindE_Inr_right [simp]: "bindE m Inr = m"
  by (cases m) simp_all

lemma foldE_Nil_fun: "foldE f [] = Inr"
  by (rule ext) simp

lemma foldE_single: "foldE f [x] s = f x s"
  by (simp add: foldE_Nil_fun)

subsection \<open>Calls on dead objects\<close>

lemma connectSlot_dead:
  assumes "\<not> (live h this \<and> live h s)"
  shows "connectSlot v this s h = Inl InvalidReference"
proof (cases "lookup h this")
  case None
  then show ?thesis by (simp add: connectSlot_def modify_alt)
next
  case (Some c)
  then have "lookup h s = None" "this \<noteq> s" using assms by (auto simp: live_def)
  then show ?thesis using Some by (simp add: connectSlot_def modify_alt lookup_update)
qed

lemma disconnectSlot_dead:
  assumes "\<not> (live h this \<and> live h s)"
  shows "disconnectSlot this s h = Inl InvalidReference"
proof (cases "lookup h this")
  case None
  then show ?thesis by (simp add: disconnectSlot_def modify_alt)
next
  case (Some c)
  then have "lookup h s = None" "this \<noteq> s" using assms by (auto simp: live_def)
  then show ?thesis using Some by (simp add: disconnectSlot_def modify_alt lookup_update)
qed

lemma connect_loop_dead:
  assumes "\<not> (\<forall>s\<in>set ss. live h (p s) \<and> live h (q s))"
  shows "foldE (\<lambda>s. connectSlot v (p s) (q s)) ss h = Inl InvalidReference"
  using assms
proof (induction ss arbitrary: h)
  case Nil
  then show ?case by simp
next
  case (Cons s ss)
  show ?case
  proof (cases "live h (p s) \<and> live h (q s)")
    case False
    then show ?thesis by (simp add: connectSlot_dead)
  next
    case True
    then have "live h (p s)" "live h (q s)" by simp_all
    from connectSlot_live [OF this, of v] obtain h1 where 1: "connectSlot v (p s) (q s) h = Inr h1"
      and lv: "\<And>b. live h1 b = live h b" by blast
    have "\<not> (\<forall>s\<in>set ss. live h1 (p s) \<and> live h1 (q s))" using Cons.prems True by (simp add: lv)
    from Cons.IH [OF this] show ?thesis using 1 by simp
  qed
qed

lemma destroy_dead: "\<not> live h this \<Longrightarrow> destroy this h = Inl InvalidReference"
  by (simp add: destroy_def getOutputs_alt live_def)

lemma tick_dead: "\<not> live h this \<Longrightarrow> tick (Suc n) this (h, tr) = Inl InvalidReference"
  by (simp add: getState_alt live_def)

lemma emit_dead: "\<not> live h this \<Longrightarrow> emit n this (h, tr) = Inl InvalidReference"
  by (simp add: emit_def emit_body_def getOutputs_alt live_def)

subsection \<open>Invariants under the structural calls\<close>

lemma count_list_mset_eq: "mset xs = mset ys \<Longrightarrow> count_list xs z = count_list ys z"
  by (metis count_mset)

lemma foldE_preserves:
  assumes "\<And>x s s'. f x s = Inr s' \<Longrightarrow> I s \<Longrightarrow> I s'" and "foldE f xs s = Inr s'" and "I s"
  shows "I s'"
  using assms(2,3)
proof (induction xs arbitrary: s)
  case Nil
  then show ?case by simp
next
  case (Cons x xs)
  from Cons.prems(1) obtain s1 where 1: "f x s = Inr s1" and 2: "foldE f xs s1 = Inr s'"
    by (auto simp: bindE_eq_Inr)
  from assms(1) [OF 1 Cons.prems(2)] have "I s1" .
  with 2 show ?case by (rule Cons.IH)
qed

lemma connectSlot_well_formed:
  assumes "well_formed h" and "connectSlot v this s h = Inr h'"
  shows "well_formed h'"
proof -
  from assms(2) have l: "live h this" "live h s" by (auto dest: connectSlot_Inr)
  from connectSlot_live [OF l, of v] assms(2)
  have lv: "\<And>b. live h' b = live h b"
    and out: "\<And>b. outputs_of h' b = (if b = this then push v s (outputs_of h this) else outputs_of h b)"
    and inp: "\<And>b. inputs_of h' b = (if b = s then push v this (inputs_of h s) else inputs_of h b)"
    by auto
  show ?thesis
    unfolding well_formed_def
  proof (intro allI impI ballI)
    fix a b assume a: "live h' a" and b: "b \<in> set (inputs_of h' a) \<union> set (outputs_of h' a)"
    from a have la: "live h a" by (simp add: lv)
    from b have "b = this \<or> b = s \<or> b \<in> set (inputs_of h a) \<union> set (outputs_of h a)"
      by (auto simp: inp out split: if_splits)
    then show "live h' b"
      using l well_formed_inputs_live [OF assms(1) la] well_formed_outputs_live [OF assms(1) la]
      by (auto simp: lv)
  qed
qed

lemma disconnectSlot_well_formed:
  assumes "well_formed h" and "disconnectSlot this s h = Inr h'"
  shows "well_formed h'"
proof -
  from assms(2) have l: "live h this" "live h s" by (auto dest: disconnectSlot_Inr)
  from disconnectSlot_live [OF l] assms(2)
  have lv: "\<And>b. live h' b = live h b"
    and out: "\<And>b. outputs_of h' b = (if b = this then removeAll s (outputs_of h this) else outputs_of h b)"
    and inp: "\<And>b. inputs_of h' b = (if b = s then removeAll this (inputs_of h s) else inputs_of h b)"
    by auto
  show ?thesis
    unfolding well_formed_def
  proof (intro allI impI ballI)
    fix a b assume a: "live h' a" and b: "b \<in> set (inputs_of h' a) \<union> set (outputs_of h' a)"
    from a have la: "live h a" by (simp add: lv)
    from b have "b \<in> set (inputs_of h a) \<union> set (outputs_of h a)"
      by (auto simp: inp out split: if_splits)
    then show "live h' b"
      using well_formed_inputs_live [OF assms(1) la] well_formed_outputs_live [OF assms(1) la]
      by (auto simp: lv)
  qed
qed

lemma construct_invariants:
  assumes "well_formed h" and "symmetric h"
  shows "well_formed (snd (construct iv h)) \<and> symmetric (snd (construct iv h))"
proof -
  obtain h0 where c: "construct iv h = (length h, h0)" by (simp add: construct_def)
  from construct_readings [OF c] have lv0: "\<And>b. live h0 b = (b = length h \<or> live h b)"
    and in0: "\<And>b. inputs_of h0 b = (if b = length h then [] else inputs_of h b)"
    and out0: "\<And>b. outputs_of h0 b = (if b = length h then [] else outputs_of h b)"
    by simp_all
  have "well_formed h0"
    unfolding well_formed_def
  proof (intro allI impI ballI)
    fix a b assume a: "live h0 a" and b: "b \<in> set (inputs_of h0 a) \<union> set (outputs_of h0 a)"
    from b have na: "a \<noteq> length h" and b': "b \<in> set (inputs_of h a) \<union> set (outputs_of h a)"
      by (auto simp: in0 out0 split: if_splits)
    from a na have la: "live h a" by (simp add: lv0)
    show "live h0 b"
      using b' well_formed_inputs_live [OF assms(1) la] well_formed_outputs_live [OF assms(1) la]
      by (auto simp: lv0)
  qed
  moreover have "symmetric h0"
    unfolding symmetric_def
  proof (intro allI impI)
    fix a b assume a: "live h0 a" and b: "live h0 b"
    show "a \<in> set (inputs_of h0 b) \<longleftrightarrow> b \<in> set (outputs_of h0 a)"
    proof (cases "a = length h \<or> b = length h")
      case True
      have "length h \<notin> set (inputs_of h x)" "length h \<notin> set (outputs_of h x)" if "live h x" for x
        using well_formed_inputs_live [OF assms(1) that, of "length h"]
          well_formed_outputs_live [OF assms(1) that, of "length h"] by auto
      then show ?thesis using True a b by (auto simp: in0 out0 lv0)
    next
      case False
      then show ?thesis using a b symmetricD [OF assms(2), of a b] by (simp add: in0 out0 lv0)
    qed
  qed
  ultimately show ?thesis by (simp add: c)
qed

lemma connect_loop_invariants:
  assumes "foldE (\<lambda>s. connectSlot v (p s) (q s)) ss h = Inr h'"
    and "well_formed h \<and> symmetric h"
  shows "well_formed h' \<and> symmetric h'"
proof (rule foldE_preserves [where f = "\<lambda>s. connectSlot v (p s) (q s)" and I = "\<lambda>h. well_formed h \<and> symmetric h", OF _ assms])
  show "well_formed s' \<and> symmetric s'"
    if "connectSlot v (p x) (q x) s = Inr s'" "well_formed s \<and> symmetric s" for x s s'
    using that connectSlot_well_formed connectSlot_symmetric by blast
qed

subsection \<open>Agreement of the two classes\<close>

lemma connectSlot_agree:
  assumes "similar h h'"
  shows "(connectSlot v this s h = Inl InvalidReference \<and> connectSlot v' this s h' = Inl InvalidReference)
       \<or> (\<exists>h1 h1'. connectSlot v this s h = Inr h1 \<and> connectSlot v' this s h' = Inr h1' \<and> similar h1 h1')"
proof (cases "live h this \<and> live h s")
  case False
  then have "\<not> (live h' this \<and> live h' s)" by (simp add: similar_live [OF assms])
  with False show ?thesis by (simp add: connectSlot_dead)
next
  case True
  then have l: "live h this" "live h s" and l': "live h' this" "live h' s"
    by (simp_all add: similar_live [OF assms])
  from connectSlot_live [OF l, of v] obtain h1 where 1: "connectSlot v this s h = Inr h1"
    and r1: "length h1 = length h" "\<And>b. live h1 b = live h b" "\<And>b. state_of h1 b = state_of h b"
      "\<And>b. outputs_of h1 b = (if b = this then push v s (outputs_of h this) else outputs_of h b)"
      "\<And>b. inputs_of h1 b = (if b = s then push v this (inputs_of h s) else inputs_of h b)"
    by blast
  from connectSlot_live [OF l', of v'] obtain h1' where 2: "connectSlot v' this s h' = Inr h1'"
    and r2: "length h1' = length h'" "\<And>b. live h1' b = live h' b" "\<And>b. state_of h1' b = state_of h' b"
      "\<And>b. outputs_of h1' b = (if b = this then push v' s (outputs_of h' this) else outputs_of h' b)"
      "\<And>b. inputs_of h1' b = (if b = s then push v' this (inputs_of h' s) else inputs_of h' b)"
    by blast
  have "similar h1 h1'"
    using assms by (simp add: similar_def r1 r2)
  with 1 2 show ?thesis by blast
qed

lemma disconnectSlot_agree:
  assumes "similar h h'"
  shows "(disconnectSlot this s h = Inl InvalidReference \<and> disconnectSlot this s h' = Inl InvalidReference)
       \<or> (\<exists>h1 h1'. disconnectSlot this s h = Inr h1 \<and> disconnectSlot this s h' = Inr h1' \<and> similar h1 h1')"
proof (cases "live h this \<and> live h s")
  case False
  then have "\<not> (live h' this \<and> live h' s)" by (simp add: similar_live [OF assms])
  with False show ?thesis by (simp add: disconnectSlot_dead)
next
  case True
  then have l: "live h this" "live h s" and l': "live h' this" "live h' s"
    by (simp_all add: similar_live [OF assms])
  from disconnectSlot_live [OF l] obtain h1 where 1: "disconnectSlot this s h = Inr h1"
    and r1: "length h1 = length h" "\<And>b. live h1 b = live h b" "\<And>b. state_of h1 b = state_of h b"
      "\<And>b. outputs_of h1 b = (if b = this then removeAll s (outputs_of h this) else outputs_of h b)"
      "\<And>b. inputs_of h1 b = (if b = s then removeAll this (inputs_of h s) else inputs_of h b)"
    by blast
  from disconnectSlot_live [OF l'] obtain h1' where 2: "disconnectSlot this s h' = Inr h1'"
    and r2: "length h1' = length h'" "\<And>b. live h1' b = live h' b" "\<And>b. state_of h1' b = state_of h' b"
      "\<And>b. outputs_of h1' b = (if b = this then removeAll s (outputs_of h' this) else outputs_of h' b)"
      "\<And>b. inputs_of h1' b = (if b = s then removeAll this (inputs_of h' s) else inputs_of h' b)"
    by blast
  have "similar h1 h1'"
    using assms by (simp add: similar_def r1 r2 mset_removeAll_eq)
  with 1 2 show ?thesis by blast
qed

lemma addInput_loop_agree:
  assumes "similar h h'" and "mset ss' = mset ss"
  shows "(foldE (\<lambda>sender. connectSlot v sender this) ss h = Inl InvalidReference
          \<and> foldE (\<lambda>sender. connectSlot v' sender this) ss' h' = Inl InvalidReference)
       \<or> (\<exists>h1 h1'. foldE (\<lambda>sender. connectSlot v sender this) ss h = Inr h1
             \<and> foldE (\<lambda>sender. connectSlot v' sender this) ss' h' = Inr h1' \<and> similar h1 h1')"
proof (cases "\<forall>s\<in>set ss. live h s \<and> live h this")
  case False
  have se: "set ss' = set ss" using assms(2) by (rule mset_eq_setD)
  from False have "\<not> (\<forall>s\<in>set ss'. live h' s \<and> live h' this)"
    by (simp add: similar_live [OF assms(1)] se)
  with False show ?thesis
    using connect_loop_dead [where p = "\<lambda>s. s" and q = "\<lambda>s. this"] by blast
next
  case True
  have se: "set ss' = set ss" using assms(2) by (rule mset_eq_setD)
  show ?thesis
  proof (cases "ss = []")
    case True
    then have "ss' = []" using assms(2) by simp
    with True assms(1) show ?thesis by simp
  next
    case False
    then obtain s0 where "s0 \<in> set ss" by (cases ss) auto
    with True have l: "live h this" "\<forall>s\<in>set ss. live h s" by auto
    then have l': "live h' this" "\<forall>s\<in>set ss'. live h' s" by (simp_all add: similar_live [OF assms(1)] se)
    from addInput_loop [OF l, of v] obtain h1 where 1: "foldE (\<lambda>sender. connectSlot v sender this) ss h = Inr h1"
      and r1: "length h1 = length h" "\<And>b. live h1 b = live h b" "\<And>b. state_of h1 b = state_of h b"
        "\<And>b. inputs_of h1 b = (if b = this then pushes v ss (inputs_of h this) else inputs_of h b)"
        "\<And>b. outputs_of h1 b = pushes v (replicate (count_list ss b) this) (outputs_of h b)"
      by blast
    from addInput_loop [OF l', of v'] obtain h1' where 2: "foldE (\<lambda>sender. connectSlot v' sender this) ss' h' = Inr h1'"
      and r2: "length h1' = length h'" "\<And>b. live h1' b = live h' b" "\<And>b. state_of h1' b = state_of h' b"
        "\<And>b. inputs_of h1' b = (if b = this then pushes v' ss' (inputs_of h' this) else inputs_of h' b)"
        "\<And>b. outputs_of h1' b = pushes v' (replicate (count_list ss' b) this) (outputs_of h' b)"
      by blast
    have "similar h1 h1'"
      using assms(1) by (simp add: similar_def r1 r2 assms(2) count_list_mset_eq [OF assms(2)])
    with 1 2 show ?thesis by blast
  qed
qed

lemma addOutput_loop_agree:
  assumes "similar h h'" and "mset ss' = mset ss"
  shows "(foldE (\<lambda>s. connectSlot v this s) ss h = Inl InvalidReference
          \<and> foldE (\<lambda>s. connectSlot v' this s) ss' h' = Inl InvalidReference)
       \<or> (\<exists>h1 h1'. foldE (\<lambda>s. connectSlot v this s) ss h = Inr h1
             \<and> foldE (\<lambda>s. connectSlot v' this s) ss' h' = Inr h1' \<and> similar h1 h1')"
proof (cases "\<forall>s\<in>set ss. live h this \<and> live h s")
  case False
  have se: "set ss' = set ss" using assms(2) by (rule mset_eq_setD)
  from False have "\<not> (\<forall>s\<in>set ss'. live h' this \<and> live h' s)"
    by (simp add: similar_live [OF assms(1)] se)
  with False show ?thesis
    using connect_loop_dead [where p = "\<lambda>s. this" and q = "\<lambda>s. s"] by blast
next
  case True
  have se: "set ss' = set ss" using assms(2) by (rule mset_eq_setD)
  show ?thesis
  proof (cases "ss = []")
    case True
    then have "ss' = []" using assms(2) by simp
    with True assms(1) show ?thesis by simp
  next
    case False
    then obtain s0 where "s0 \<in> set ss" by (cases ss) auto
    with True have l: "live h this" "\<forall>s\<in>set ss. live h s" by auto
    then have l': "live h' this" "\<forall>s\<in>set ss'. live h' s" by (simp_all add: similar_live [OF assms(1)] se)
    from addOutput_loop [OF l, of v] obtain h1 where 1: "foldE (\<lambda>s. connectSlot v this s) ss h = Inr h1"
      and r1: "length h1 = length h" "\<And>b. live h1 b = live h b" "\<And>b. state_of h1 b = state_of h b"
        "\<And>b. outputs_of h1 b = (if b = this then pushes v ss (outputs_of h this) else outputs_of h b)"
        "\<And>b. inputs_of h1 b = pushes v (replicate (count_list ss b) this) (inputs_of h b)"
      by blast
    from addOutput_loop [OF l', of v'] obtain h1' where 2: "foldE (\<lambda>s. connectSlot v' this s) ss' h' = Inr h1'"
      and r2: "length h1' = length h'" "\<And>b. live h1' b = live h' b" "\<And>b. state_of h1' b = state_of h' b"
        "\<And>b. outputs_of h1' b = (if b = this then pushes v' ss' (outputs_of h' this) else outputs_of h' b)"
        "\<And>b. inputs_of h1' b = pushes v' (replicate (count_list ss' b) this) (inputs_of h' b)"
      by blast
    have "similar h1 h1'"
      using assms(1) by (simp add: similar_def r1 r2 assms(2) count_list_mset_eq [OF assms(2)])
    with 1 2 show ?thesis by blast
  qed
qed

lemma construct_similar:
  assumes "similar h h'"
  shows "similar (snd (construct iv h)) (snd (construct iv h'))"
proof -
  have len: "length h' = length h" using assms by (simp add: similar_def)
  obtain h0 where c: "construct iv h = (length h, h0)" by (simp add: construct_def)
  obtain h0' where c': "construct iv h' = (length h', h0')" by (simp add: construct_def)
  note r = construct_readings [OF c] and r' = construct_readings [OF c']
  have "similar h0 h0'" using assms r r' by (simp add: similar_def len)
  then show ?thesis by (simp add: c c')
qed

lemma destroy_agree:
  assumes "well_formed h" and "symmetric h" and "similar h h'"
  shows "(destroy this h = Inl InvalidReference \<and> destroy this h' = Inl InvalidReference)
       \<or> (\<exists>h1 h1'. destroy this h = Inr h1 \<and> destroy this h' = Inr h1' \<and> similar h1 h1')"
proof (cases "live h this")
  case False
  then have "\<not> live h' this" by (simp add: similar_live [OF assms(3)])
  with False show ?thesis by (simp add: destroy_dead)
next
  case True
  then have l': "live h' this" by (simp add: similar_live [OF assms(3)])
  have wf': "well_formed h'" using assms(1) by (simp add: similar_well_formed [OF assms(3)])
  have sy': "symmetric h'" using assms(2) by (simp add: similar_symmetric [OF assms(3)])
  from destroy_readings [OF assms(1,2) True] obtain h1 where 1: "destroy this h = Inr h1"
    and r1: "length h1 = length h" "\<And>b. live h1 b = (live h b \<and> b \<noteq> this)"
      "\<And>b. b \<noteq> this \<Longrightarrow> state_of h1 b = state_of h b \<and>
                 inputs_of h1 b = removeAll this (inputs_of h b) \<and>
                 outputs_of h1 b = removeAll this (outputs_of h b)"
    by blast
  from destroy_readings [OF wf' sy' l'] obtain h1' where 2: "destroy this h' = Inr h1'"
    and r2: "length h1' = length h'" "\<And>b. live h1' b = (live h' b \<and> b \<noteq> this)"
      "\<And>b. b \<noteq> this \<Longrightarrow> state_of h1' b = state_of h' b \<and>
                 inputs_of h1' b = removeAll this (inputs_of h' b) \<and>
                 outputs_of h1' b = removeAll this (outputs_of h' b)"
    by blast
  have dead: "state_of h1 this = state_of h1' this" "inputs_of h1 this = inputs_of h1' this"
    "outputs_of h1 this = outputs_of h1' this"
    using r1(2) [of this] r2(2) [of this]
    by (simp_all add: live_def state_of_def inputs_of_def outputs_of_def)
  have "similar h1 h1'"
    unfolding similar_def
  proof (intro conjI allI)
    show "length h1' = length h1" using assms(3) by (simp add: r1 r2 similar_def)
    fix a
    show "live h1' a = live h1 a" by (simp add: r1 r2 similar_live [OF assms(3)])
    show "state_of h1' a = state_of h1 a"
      using dead r1(3) [of a] r2(3) [of a] by (cases "a = this") (simp_all add: similar_state [OF assms(3)])
    show "mset (inputs_of h1' a) = mset (inputs_of h1 a)"
      using dead r1(3) [of a] r2(3) [of a]
      by (cases "a = this") (simp_all add: mset_removeAll_eq similar_inputs [OF assms(3)])
    show "mset (outputs_of h1' a) = mset (outputs_of h1 a)"
      using dead r1(3) [of a] r2(3) [of a]
      by (cases "a = this") (simp_all add: mset_removeAll_eq similar_outputs [OF assms(3)])
  qed
  with 1 2 show ?thesis by blast
qed

lemma getIputs_dead: "\<not> live h a \<Longrightarrow> getIputs h a = Inl InvalidReference"
  by (simp add: getIputs_alt live_def)

lemma getOutputs_dead: "\<not> live h a \<Longrightarrow> getOutputs h a = Inl InvalidReference"
  by (simp add: getOutputs_alt live_def)

lemma construct_eq: "construct iv h = (length h, snd (construct iv h))"
  by (simp add: construct_def)

lemma copy_outputs_agree:
  assumes s1: "similar (h1 :: 'w::len heap) h1'"
  shows "(bindE (getOutputs h1 sc) (\<lambda>connections.
            bindE (foldE (\<lambda>connection. addOutput v D connection) connections h1) (\<lambda>h2. Inr (D, h2)))
            = Inl InvalidReference
          \<and> bindE (getOutputs h1' sc) (\<lambda>connections.
            bindE (foldE (\<lambda>connection. addOutput v' D connection) connections h1') (\<lambda>h2. Inr (D, h2)))
            = Inl InvalidReference)
       \<or> (\<exists>h2 h2'. bindE (getOutputs h1 sc) (\<lambda>connections.
            bindE (foldE (\<lambda>connection. addOutput v D connection) connections h1) (\<lambda>h2. Inr (D, h2)))
            = Inr (D, h2)
          \<and> bindE (getOutputs h1' sc) (\<lambda>connections.
            bindE (foldE (\<lambda>connection. addOutput v' D connection) connections h1') (\<lambda>h2. Inr (D, h2)))
            = Inr (D, h2') \<and> similar h2 h2')"
proof (cases "live h1 sc")
  case False
  then have "\<not> live h1' sc" by (simp add: similar_live [OF s1])
  with False show ?thesis by (simp add: getOutputs_dead)
next
  case True
  then have l1': "live h1' sc" by (simp add: similar_live [OF s1])
  have o: "getOutputs h1 sc = Inr (outputs_of h1 sc)" using True by (rule getOutputs_live)
  have o': "getOutputs h1' sc = Inr (outputs_of h1' sc)" using l1' by (rule getOutputs_live)
  from addOutput_loop_agree [OF s1 similar_outputs [OF s1, of sc], of v D v']
  show ?thesis by (auto simp: o o' addOutput_fun)
qed

lemma copy_construct_agree:
  assumes "similar (h :: 'w::len heap) h'"
  shows "(copy_construct v sc dup h = Inl InvalidReference \<and> copy_construct v' sc dup h' = Inl InvalidReference)
       \<or> (\<exists>h1 h1'. copy_construct v sc dup h = Inr (length h, h1)
             \<and> copy_construct v' sc dup h' = Inr (length h', h1') \<and> similar h1 h1')"
proof -
  let ?D = "length h"
  have len: "length h' = ?D" using assms by (simp add: similar_def)
  obtain h0 :: "'w heap" where c: "construct 0 h = (?D, h0)" by (simp add: construct_def)
  obtain h0' :: "'w heap" where c': "construct 0 h' = (?D, h0')" by (simp add: construct_def len)
  have s0: "similar h0 h0'" using construct_similar [OF assms, of 0] by (simp add: c c')
  show ?thesis
  proof (cases "live h0 sc")
    case False
    then have "\<not> live h0' sc" by (simp add: similar_live [OF s0])
    with False show ?thesis
      by (simp add: copy_construct_def c c' getIputs_dead)
  next
    case True
    then have l': "live h0' sc" by (simp add: similar_live [OF s0])
    have g: "getIputs h0 sc = Inr (inputs_of h0 sc)" using True by (rule getIputs_live)
    have g': "getIputs h0' sc = Inr (inputs_of h0' sc)" using l' by (rule getIputs_live)
    consider
      (fail) "foldE (\<lambda>sender. connectSlot v sender ?D) (inputs_of h0 sc) h0 = Inl InvalidReference"
        "foldE (\<lambda>sender. connectSlot v' sender ?D) (inputs_of h0' sc) h0' = Inl InvalidReference"
    | (ok) h1 h1' where "foldE (\<lambda>sender. connectSlot v sender ?D) (inputs_of h0 sc) h0 = Inr h1"
        "foldE (\<lambda>sender. connectSlot v' sender ?D) (inputs_of h0' sc) h0' = Inr h1'" "similar h1 h1'"
      using addInput_loop_agree [OF s0 similar_inputs [OF s0, of sc], of v ?D v'] by blast
    then show ?thesis
    proof cases
      case fail
      then show ?thesis by (simp add: copy_construct_def c c' g g' addInput_fun)
    next
      case ok
      show ?thesis
      proof (cases dup)
        case False
        then show ?thesis
          using ok by (simp add: copy_construct_def c c' g g' addInput_fun len)
      next
        case True
        from copy_outputs_agree [OF ok(3), of sc v ?D v'] show ?thesis
          using ok(1,2) True by (simp add: copy_construct_def c c' g g' addInput_fun len)
      qed
    qed
  qed
qed

lemma connect_construct_agree:
  assumes "similar (h :: 'w::len heap) h'"
  shows "(connect_construct v ins outs h = Inl InvalidReference
          \<and> connect_construct v' ins outs h' = Inl InvalidReference)
       \<or> (\<exists>h1 h1'. connect_construct v ins outs h = Inr (length h, h1)
             \<and> connect_construct v' ins outs h' = Inr (length h', h1') \<and> similar h1 h1')"
proof -
  let ?D = "length h"
  have len: "length h' = ?D" using assms by (simp add: similar_def)
  obtain h0 :: "'w heap" where c: "construct 0 h = (?D, h0)" by (simp add: construct_def)
  obtain h0' :: "'w heap" where c': "construct 0 h' = (?D, h0')" by (simp add: construct_def len)
  have s0: "similar h0 h0'" using construct_similar [OF assms, of 0] by (simp add: c c')
  consider
    (fail) "foldE (\<lambda>sender. connectSlot v sender ?D) ins h0 = Inl InvalidReference"
      "foldE (\<lambda>sender. connectSlot v' sender ?D) ins h0' = Inl InvalidReference"
  | (ok) h1 h1' where "foldE (\<lambda>sender. connectSlot v sender ?D) ins h0 = Inr h1"
      "foldE (\<lambda>sender. connectSlot v' sender ?D) ins h0' = Inr h1'" "similar h1 h1'"
    using addInput_loop_agree [OF s0 refl, of v ?D ins v'] by blast
  then show ?thesis
  proof cases
    case fail
    then show ?thesis
      by (simp add: connect_construct_def c c' addInput_list_def addInput_fun)
  next
    case ok
    from addOutput_loop_agree [OF ok(3) refl, of v ?D outs v'] show ?thesis
      using ok(1,2)
      by (auto simp: connect_construct_def c c' addInput_list_def addOutput_list_def
          addInput_fun addOutput_fun len)
  qed
qed

lemma mutate_agree:
  assumes "well_formed (h :: 'w::len heap)" and "symmetric h" and "similar h h'"
  shows "(mutate v mu h = Inl InvalidReference \<and> mutate v' mu h' = Inl InvalidReference)
       \<or> (\<exists>h1 h1'. mutate v mu h = Inr h1 \<and> mutate v' mu h' = Inr h1' \<and> similar h1 h1')"
proof (cases mu)
  case (Construct iv)
  then show ?thesis using construct_similar [OF assms(3), of iv] by simp
next
  case (CopyConstruct sc dup)
  from copy_construct_agree [OF assms(3), of v sc dup v'] show ?thesis
    by (auto simp: CopyConstruct)
next
  case (ConnectConstruct ins outs)
  from connect_construct_agree [OF assms(3), of v ins outs v'] show ?thesis
    by (auto simp: ConnectConstruct)
next
  case (Destroy a)
  then show ?thesis using destroy_agree [OF assms, of a] by simp
next
  case (AddInput a b)
  then show ?thesis using connectSlot_agree [OF assms(3), of v b a v'] by (simp add: addInput_def)
next
  case (AddInputs a bs)
  then show ?thesis using addInput_loop_agree [OF assms(3) refl, of v a bs v']
    by (simp add: addInput_list_def addInput_fun)
next
  case (RemoveInput a b)
  then show ?thesis using disconnectSlot_agree [OF assms(3), of b a] by (simp add: removeInput_def)
next
  case (AddOutput a b)
  then show ?thesis using connectSlot_agree [OF assms(3), of v a b v'] by (simp add: addOutput_def)
next
  case (AddOutputs a bs)
  then show ?thesis using addOutput_loop_agree [OF assms(3) refl, of v a bs v']
    by (simp add: addOutput_list_def addOutput_fun)
next
  case (RemoveOutput a b)
  then show ?thesis using disconnectSlot_agree [OF assms(3), of a b] by (simp add: removeOutput_def)
qed

lemma copy_construct_invariants:
  assumes "copy_construct v sc dup (h :: 'w::len heap) = Inr (D, h')" and "well_formed h \<and> symmetric h"
  shows "well_formed h' \<and> symmetric h'"
proof -
  obtain h0 :: "'w heap" where c: "construct 0 h = (length h, h0)" by (simp add: construct_def)
  have i0: "well_formed h0 \<and> symmetric h0"
    using construct_invariants [of h 0] assms(2) by (simp add: c)
  from assms(1) obtain senders h1 where
    1: "foldE (\<lambda>sender. connectSlot v sender (length h)) senders h0 = Inr h1"
    and rest: "(if dup then bindE (getOutputs h1 sc) (\<lambda>connections.
            bindE (foldE (addOutput v (length h)) connections h1)
              (\<lambda>h2. Inr (length h, h2))) else Inr (length h, h1)) = Inr (D, h')"
    by (auto simp: copy_construct_def c bindE_eq_Inr addInput_fun)
  have i1: "well_formed h1 \<and> symmetric h1"
    using 1 i0 by (rule connect_loop_invariants [where p = "\<lambda>s. s" and q = "\<lambda>s. length h"])
  show ?thesis
  proof (cases dup)
    case False
    then show ?thesis using rest i1 by simp
  next
    case True
    with rest obtain conns where
      "foldE (\<lambda>connection. connectSlot v (length h) connection) conns h1 = Inr h'"
      by (auto simp: bindE_eq_Inr addOutput_fun)
    then show ?thesis
      using i1 by (rule connect_loop_invariants [where p = "\<lambda>s. length h" and q = "\<lambda>s. s"])
  qed
qed

lemma connect_construct_invariants:
  assumes "connect_construct v ins outs (h :: 'w::len heap) = Inr (D, h')" and "well_formed h \<and> symmetric h"
  shows "well_formed h' \<and> symmetric h'"
proof -
  obtain h0 :: "'w heap" where c: "construct 0 h = (length h, h0)" by (simp add: construct_def)
  have i0: "well_formed h0 \<and> symmetric h0"
    using construct_invariants [of h 0] assms(2) by (simp add: c)
  from assms(1) obtain h1 where
    1: "foldE (\<lambda>sender. connectSlot v sender (length h)) ins h0 = Inr h1"
    and 2: "foldE (\<lambda>connection. connectSlot v (length h) connection) outs h1 = Inr h'"
    by (auto simp: connect_construct_def c bindE_eq_Inr addInput_list_def addOutput_list_def
        addInput_fun addOutput_fun)
  have i1: "well_formed h1 \<and> symmetric h1"
    using 1 i0 by (rule connect_loop_invariants [where p = "\<lambda>s. s" and q = "\<lambda>s. length h"])
  show ?thesis
    using 2 i1 by (rule connect_loop_invariants [where p = "\<lambda>s. length h" and q = "\<lambda>s. s"])
qed

lemma mutate_invariants:
  assumes "mutate v mu (h :: 'w::len heap) = Inr h'" and "well_formed h \<and> symmetric h"
  shows "well_formed h' \<and> symmetric h'"
proof (cases mu)
  case (Construct iv)
  then show ?thesis using construct_invariants [of h iv] assms by auto
next
  case (CopyConstruct sc dup)
  with assms(1) obtain D where "copy_construct v sc dup h = Inr (D, h')"
    by (auto simp: bindE_eq_Inr)
  then show ?thesis using assms(2) by (rule copy_construct_invariants)
next
  case (ConnectConstruct ins outs)
  with assms(1) obtain D where "connect_construct v ins outs h = Inr (D, h')"
    by (auto simp: bindE_eq_Inr)
  then show ?thesis using assms(2) by (rule connect_construct_invariants)
next
  case (Destroy a)
  with assms(1) have d: "destroy a h = Inr h'" by simp
  from destroy_invariants [OF _ _ d destroy_Inr [OF d]] assms(2) show ?thesis by simp
next
  case (AddInput a b)
  with assms(1) have "connectSlot v b a h = Inr h'" by (simp add: addInput_def)
  then show ?thesis using assms(2) connectSlot_well_formed connectSlot_symmetric by blast
next
  case (AddInputs a bs)
  with assms(1) have "foldE (\<lambda>sender. connectSlot v sender a) bs h = Inr h'"
    by (simp add: addInput_list_def addInput_fun)
  then show ?thesis
    using assms(2) by (rule connect_loop_invariants [where p = "\<lambda>s. s" and q = "\<lambda>s. a"])
next
  case (RemoveInput a b)
  with assms(1) have "disconnectSlot b a h = Inr h'" by (simp add: removeInput_def)
  then show ?thesis using assms(2) disconnectSlot_well_formed disconnectSlot_symmetric by blast
next
  case (AddOutput a b)
  with assms(1) have "connectSlot v a b h = Inr h'" by (simp add: addOutput_def)
  then show ?thesis using assms(2) connectSlot_well_formed connectSlot_symmetric by blast
next
  case (AddOutputs a bs)
  with assms(1) have "foldE (\<lambda>connection. connectSlot v a connection) bs h = Inr h'"
    by (simp add: addOutput_list_def addOutput_fun)
  then show ?thesis
    using assms(2) by (rule connect_loop_invariants [where p = "\<lambda>s. a" and q = "\<lambda>s. s"])
next
  case (RemoveOutput a b)
  with assms(1) have "disconnectSlot a b h = Inr h'" by (simp add: removeOutput_def)
  then show ?thesis using assms(2) disconnectSlot_well_formed disconnectSlot_symmetric by blast
qed

lemma similar_grows_eq:
  assumes "grows h h1" and "grows h h2" and "similar h1 h2"
  shows "h2 = h1"
proof (rule heap_eq_readings)
  show "length h2 = length h1" using assms(3) by (simp add: similar_def)
  show "live h2 b = live h1 b" for b using assms(3) by (rule similar_live)
  show "state_of h2 b = state_of h1 b" for b using assms(3) by (rule similar_state)
  show "outputs_of h2 b = outputs_of h1 b" for b
    by (simp add: grows_outputs [OF assms(1)] grows_outputs [OF assms(2)])
  show "inputs_of h2 b = inputs_of h1 b" for b
    by (simp add: grows_inputs [OF assms(1)] grows_inputs [OF assms(2)])
qed

lemma propagate_agree:
  assumes wf: "well_formed (h :: 'w::len heap)" and sy: "symmetric h" and si: "similar h h'"
    and lv: "\<forall>x\<in>set xs. live h x" and se: "set ys = set xs"
  shows "\<exists>h1 h1'. well_formed h1 \<and> symmetric h1 \<and> similar h1 h1'
           \<and> (\<forall>n tr. slack h < n \<longrightarrow> (\<exists>tr1. foldE (tick n) xs (h, tr) = Inr (h1, tr1)))
           \<and> (\<forall>m tr'. slack h < m \<longrightarrow> (\<exists>tr1'. foldE (tick m) ys (h', tr') = Inr (h1', tr1')))"
proof -
  have wf': "well_formed h'" using wf by (simp add: similar_well_formed [OF si])
  have sy': "symmetric h'" using sy by (simp add: similar_symmetric [OF si])
  have lv': "\<forall>x\<in>set ys. live h' x" using lv by (simp add: se similar_live [OF si])
  have sl: "slack h' = slack h" using si by (rule similar_slack)
  from ticks_total [OF wf lv, of "Suc (slack h)" "[]"] obtain h1 t1 where
    r0: "foldE (tick (Suc (slack h))) xs (h, []) = Inr (h1, t1)" by auto
  from ticks_total [OF wf' lv', of "Suc (slack h)" "[]"] obtain h1' t1' where
    r0': "foldE (tick (Suc (slack h))) ys (h', []) = Inr (h1', t1')" by (auto simp: sl)
  have g: "grows h h1" using r0 by (rule ticks_grow)
  have g': "grows h' h1'" using r0' by (rule ticks_grow)
  have "well_formed h1" using g wf by (rule grows_well_formed)
  moreover have "symmetric h1" using g sy by (rule grows_symmetric)
  moreover have "similar h1 h1'" using r0 r0' si se sy by (rule ticks_unique)
  moreover have "\<exists>tr1. foldE (tick n) xs (h, tr) = Inr (h1, tr1)" if "slack h < n" for n tr
  proof -
    from ticks_total [OF wf lv that, of tr] obtain hx tx where
      r: "foldE (tick n) xs (h, tr) = Inr (hx, tx)" by auto
    have "similar h1 hx" using r0 r similar_refl refl sy by (rule ticks_unique)
    with g ticks_grow [OF r] have "hx = h1" by (rule similar_grows_eq)
    with r show ?thesis by blast
  qed
  moreover have "\<exists>tr1'. foldE (tick m) ys (h', tr') = Inr (h1', tr1')" if "slack h < m" for m tr'
  proof -
    from that have "slack h' < m" by (simp add: sl)
    from ticks_total [OF wf' lv' this, of tr'] obtain hx tx where
      r: "foldE (tick m) ys (h', tr') = Inr (hx, tx)" by auto
    have "similar h1' hx" using r0' r similar_refl refl sy' by (rule ticks_unique)
    with g' ticks_grow [OF r] have "hx = h1'" by (rule similar_grows_eq)
    with r show ?thesis by blast
  qed
  ultimately show ?thesis by blast
qed

text \<open>One call, made in the two classes on stores that agree.\<close>

lemma step_agree:
  assumes wf: "well_formed (h :: 'w::len heap)" and sy: "symmetric h" and si: "similar h h'"
  shows "\<exists>N. (\<forall>n m tr tr'. N \<le> n \<longrightarrow> N \<le> m \<longrightarrow>
                 step v n x (h, tr) = Inl InvalidReference \<and> step v' m x (h', tr') = Inl InvalidReference)
           \<or> (\<exists>h1 h1'. well_formed h1 \<and> symmetric h1 \<and> similar h1 h1'
                 \<and> (\<forall>n tr. N \<le> n \<longrightarrow> (\<exists>tr1. step v n x (h, tr) = Inr (h1, tr1)))
                 \<and> (\<forall>m tr'. N \<le> m \<longrightarrow> (\<exists>tr1'. step v' m x (h', tr') = Inr (h1', tr1'))))"
proof (cases x)
  case (Mutate mu)
  from mutate_agree [OF assms, of v mu v'] show ?thesis
  proof
    assume "mutate v mu h = Inl InvalidReference \<and> mutate v' mu h' = Inl InvalidReference"
    then show ?thesis by (simp add: Mutate)
  next
    assume "\<exists>h1 h1'. mutate v mu h = Inr h1 \<and> mutate v' mu h' = Inr h1' \<and> similar h1 h1'"
    then obtain h1 h1' where m: "mutate v mu h = Inr h1" "mutate v' mu h' = Inr h1'"
      and s1: "similar h1 h1'" by blast
    from mutate_invariants [OF m(1)] wf sy have "well_formed h1" "symmetric h1" by simp_all
    with m s1 show ?thesis by (auto simp: Mutate)
  qed
next
  case (Tick a)
  show ?thesis
  proof (cases "live h a")
    case False
    then have d': "\<not> live h' a" by (simp add: similar_live [OF si])
    have "step v n x (h, tr) = Inl InvalidReference \<and> step v' m x (h', tr') = Inl InvalidReference"
      if "1 \<le> n" "1 \<le> m" for n m tr tr'
    proof -
      from that obtain k j where "n = Suc k" "m = Suc j" by (cases n; cases m) auto
      then show ?thesis using tick_dead [OF False] tick_dead [OF d'] by (simp add: Tick del: tick.simps)
    qed
    then show ?thesis by blast
  next
    case True
    then have "\<forall>y\<in>set [a]. live h y" by simp
    from propagate_agree [OF wf sy si this refl, unfolded foldE_single] obtain h1 h1' where
      "well_formed h1" "symmetric h1" "similar h1 h1'"
      "\<And>n tr. slack h < n \<Longrightarrow> \<exists>tr1. tick n a (h, tr) = Inr (h1, tr1)"
      "\<And>m tr'. slack h < m \<Longrightarrow> \<exists>tr1'. tick m a (h', tr') = Inr (h1', tr1')"
      by blast
    then have "well_formed h1 \<and> symmetric h1 \<and> similar h1 h1'
                 \<and> (\<forall>n tr. Suc (slack h) \<le> n \<longrightarrow> (\<exists>tr1. step v n x (h, tr) = Inr (h1, tr1)))
                 \<and> (\<forall>m tr'. Suc (slack h) \<le> m \<longrightarrow> (\<exists>tr1'. step v' m x (h', tr') = Inr (h1', tr1')))"
      by (simp add: Tick Suc_le_eq del: tick.simps)
    then show ?thesis by blast
  qed
next
  case (Emit a)
  show ?thesis
  proof (cases "live h a")
    case False
    then have d': "\<not> live h' a" by (simp add: similar_live [OF si])
    show ?thesis using emit_dead [OF False] emit_dead [OF d'] by (simp add: Emit)
  next
    case True
    then have l': "live h' a" by (simp add: similar_live [OF si])
    have o: "getOutputs h a = Inr (outputs_of h a)" using True by (rule getOutputs_live)
    have o': "getOutputs h' a = Inr (outputs_of h' a)" using l' by (rule getOutputs_live)
    have "\<forall>y\<in>set (outputs_of h a). live h y" using well_formed_outputs_live [OF wf True] by blast
    from propagate_agree [OF wf sy si this similar_set_outputs [OF si, of a]] obtain h1 h1' where
      "well_formed h1" "symmetric h1" "similar h1 h1'"
      "\<And>n tr. slack h < n \<Longrightarrow> \<exists>tr1. foldE (tick n) (outputs_of h a) (h, tr) = Inr (h1, tr1)"
      "\<And>m tr'. slack h < m \<Longrightarrow> \<exists>tr1'. foldE (tick m) (outputs_of h' a) (h', tr') = Inr (h1', tr1')"
      by blast
    then have "well_formed h1 \<and> symmetric h1 \<and> similar h1 h1'
                 \<and> (\<forall>n tr. Suc (slack h) \<le> n \<longrightarrow> (\<exists>tr1. step v n x (h, tr) = Inr (h1, tr1)))
                 \<and> (\<forall>m tr'. Suc (slack h) \<le> m \<longrightarrow> (\<exists>tr1'. step v' m x (h', tr') = Inr (h1', tr1')))"
      by (simp add: Emit emit_def emit_body_def o o' Suc_le_eq)
    then show ?thesis by blast
  qed
qed

lemma agree_Inl [simp]: "agree (Inl e) (Inl e') \<longleftrightarrow> e = e'"
  by (simp add: agree_def)

lemma agree_Inr [simp]: "agree (Inr w) (Inr w') \<longleftrightarrow> similar (fst w) (fst w')"
  by (simp add: agree_def)

lemma exec_fun: "exec v n = foldE (step v n)"
  by (rule ext)+ (simp add: exec_def)

lemma exec_Nil [simp]: "exec v n [] w = Inr w"
  by (simp add: exec_fun)

lemma exec_Cons [simp]: "exec v n (x # xs) w = bindE (step v n x w) (exec v n xs)"
  by (simp add: exec_fun)

lemma exec_agree:
  assumes "well_formed (h :: 'w::len heap)" and "symmetric h" and "similar h h'"
  shows "\<exists>N. \<forall>n m tr tr'. N \<le> n \<longrightarrow> N \<le> m \<longrightarrow>
           agree (exec v n ops (h, tr)) (exec v' m ops (h', tr'))
           \<and> exec v n ops (h, tr) \<noteq> Inl OutOfFuel \<and> exec v' m ops (h', tr') \<noteq> Inl OutOfFuel"
  using assms
proof (induction ops arbitrary: h h')
  case Nil
  then show ?case by simp
next
  case (Cons x ops)
  from step_agree [OF Cons.prems, of v x v'] obtain N1 where
    N1: "(\<forall>n m tr tr'. N1 \<le> n \<longrightarrow> N1 \<le> m \<longrightarrow>
                 step v n x (h, tr) = Inl InvalidReference \<and> step v' m x (h', tr') = Inl InvalidReference)
           \<or> (\<exists>h1 h1'. well_formed h1 \<and> symmetric h1 \<and> similar h1 h1'
                 \<and> (\<forall>n tr. N1 \<le> n \<longrightarrow> (\<exists>tr1. step v n x (h, tr) = Inr (h1, tr1)))
                 \<and> (\<forall>m tr'. N1 \<le> m \<longrightarrow> (\<exists>tr1'. step v' m x (h', tr') = Inr (h1', tr1'))))"
    by blast
  from N1 show ?case
  proof
    assume fail: "\<forall>n m tr tr'. N1 \<le> n \<longrightarrow> N1 \<le> m \<longrightarrow>
                 step v n x (h, tr) = Inl InvalidReference \<and> step v' m x (h', tr') = Inl InvalidReference"
    have "agree (exec v n (x # ops) (h, tr)) (exec v' m (x # ops) (h', tr'))
           \<and> exec v n (x # ops) (h, tr) \<noteq> Inl OutOfFuel
           \<and> exec v' m (x # ops) (h', tr') \<noteq> Inl OutOfFuel"
      if "N1 \<le> n" "N1 \<le> m" for n m tr tr'
    proof -
      from fail that have "step v n x (h, tr) = Inl InvalidReference"
        "step v' m x (h', tr') = Inl InvalidReference"
        by blast+
      then show ?thesis by simp
    qed
    then show ?thesis by blast
  next
    assume "\<exists>h1 h1'. well_formed h1 \<and> symmetric h1 \<and> similar h1 h1'
                 \<and> (\<forall>n tr. N1 \<le> n \<longrightarrow> (\<exists>tr1. step v n x (h, tr) = Inr (h1, tr1)))
                 \<and> (\<forall>m tr'. N1 \<le> m \<longrightarrow> (\<exists>tr1'. step v' m x (h', tr') = Inr (h1', tr1')))"
    then obtain h1 h1' where i1: "well_formed h1" "symmetric h1" "similar h1 h1'"
      and s1: "\<And>n tr. N1 \<le> n \<Longrightarrow> \<exists>tr1. step v n x (h, tr) = Inr (h1, tr1)"
      and s1': "\<And>m tr'. N1 \<le> m \<Longrightarrow> \<exists>tr1'. step v' m x (h', tr') = Inr (h1', tr1')"
      by blast
    from Cons.IH [OF i1] obtain N2 where
      N2: "\<And>n m tr tr'. N2 \<le> n \<Longrightarrow> N2 \<le> m \<Longrightarrow>
             agree (exec v n ops (h1, tr)) (exec v' m ops (h1', tr'))
             \<and> exec v n ops (h1, tr) \<noteq> Inl OutOfFuel \<and> exec v' m ops (h1', tr') \<noteq> Inl OutOfFuel"
      by blast
    have "agree (exec v n (x # ops) (h, tr)) (exec v' m (x # ops) (h', tr'))
           \<and> exec v n (x # ops) (h, tr) \<noteq> Inl OutOfFuel
           \<and> exec v' m (x # ops) (h', tr') \<noteq> Inl OutOfFuel"
      if "max N1 N2 \<le> n" "max N1 N2 \<le> m" for n m tr tr'
    proof -
      from that have n: "N1 \<le> n" "N2 \<le> n" and m: "N1 \<le> m" "N2 \<le> m" by simp_all
      from s1 [OF n(1), of tr] obtain tr1 where a: "step v n x (h, tr) = Inr (h1, tr1)" ..
      from s1' [OF m(1), of tr'] obtain tr1' where b: "step v' m x (h', tr') = Inr (h1', tr1')" ..
      show ?thesis using N2 [OF n(2) m(2), of tr1 tr1'] by (simp add: a b)
    qed
    then show ?thesis by blast
  qed
qed

lemma well_formed_Nil: "well_formed []"
  by (simp add: well_formed_def live_def lookup_def)

lemma symmetric_Nil: "symmetric []"
  by (simp add: symmetric_def live_def lookup_def)

subsection \<open>Invariants of runs\<close>

lemma step_invariants:
  assumes "step v n x (h :: 'w::len heap, tr) = Inr (h', tr')" and "well_formed h \<and> symmetric h"
  shows "well_formed h' \<and> symmetric h'"
proof (cases x)
  case (Mutate mu)
  with assms(1) have "mutate v mu h = Inr h'" by (auto simp: bindE_eq_Inr)
  then show ?thesis using assms(2) by (rule mutate_invariants)
next
  case (Tick a)
  with assms(1) have "tick n a (h, tr) = Inr (h', tr')" by simp
  then have "grows h h'" by (rule tick_grows)
  then show ?thesis using assms(2) grows_well_formed grows_symmetric by blast
next
  case (Emit a)
  with assms(1) obtain conns where "foldE (tick n) conns (h, tr @ [EmitCall a]) = Inr (h', tr')"
    by (auto simp: emit_def emit_body_def bindE_eq_Inr)
  then have "grows h h'" by (rule ticks_grow)
  then show ?thesis using assms(2) grows_well_formed grows_symmetric by blast
qed

lemma exec_invariants:
  assumes "exec v n ops (h :: 'w::len heap, tr) = Inr (h', tr')" and "well_formed h \<and> symmetric h"
  shows "well_formed h' \<and> symmetric h'"
proof -
  have "well_formed (fst (h', tr')) \<and> symmetric (fst (h', tr'))"
  proof (rule foldE_preserves [where f = "step v n" and I = "\<lambda>w. well_formed (fst w) \<and> symmetric (fst w)"])
    show "foldE (step v n) ops (h, tr) = Inr (h', tr')" using assms(1) by (simp add: exec_fun)
    show "well_formed (fst (h, tr)) \<and> symmetric (fst (h, tr))" using assms(2) by simp
    show "well_formed (fst s') \<and> symmetric (fst s')"
      if "step v n x s = Inr s'" "well_formed (fst s) \<and> symmetric (fst s)" for x and s s' :: "'w world"
      using step_invariants [of v n x "fst s" "snd s" "fst s'" "snd s'"] that by simp
  qed
  then show ?thesis by simp
qed

lemma exec_reachable:
  assumes "exec v n ops ([] :: 'w::len heap, []) = Inr (h', tr')"
  shows "well_formed h' \<and> symmetric h'"
  using assms by (rule exec_invariants) (simp add: well_formed_Nil symmetric_Nil)
section \<open>The claims\<close>

subsection \<open>tick on a component without inputs\<close>

text \<open>
  Claim C10.  When the list of inputs of a component is empty, \<^verbatim>\<open>tick\<close> leaves the whole
  store as it was, and with it the state of the component, and the only call made is the
  call of \<^verbatim>\<open>tick\<close> itself: \<^verbatim>\<open>emit\<close> is not called, whatever the state and the outputs of
  the component are.
\<close>

theorem tick_no_inputs:
  assumes "getIputs h this = Inr []"
  shows "tick (Suc n) this (h, tr) = Inr (h, tr @ [TickCall this])"
  using assms by (rule tick_without_inputs)

theorem tick_no_inputs_witness:
  "getIputs [Some \<lparr>state = 5 :: 8 word, slotOutput = [1], signalInput = []\<rparr>,
             Some \<lparr>state = 0, slotOutput = [], signalInput = [0]\<rparr>] 0 = Inr [] \<and>
   tick (Suc 3) 0 ([Some \<lparr>state = 5 :: 8 word, slotOutput = [1], signalInput = []\<rparr>,
             Some \<lparr>state = 0, slotOutput = [], signalInput = [0]\<rparr>], []) =
     Inr ([Some \<lparr>state = 5 :: 8 word, slotOutput = [1], signalInput = []\<rparr>,
             Some \<lparr>state = 0, slotOutput = [], signalInput = [0]\<rparr>], [TickCall 0])"
proof -
  have g: "getIputs [Some \<lparr>state = 5 :: 8 word, slotOutput = [1], signalInput = []\<rparr>,
             Some \<lparr>state = 0, slotOutput = [], signalInput = [0]\<rparr>] 0 = Inr []"
    by (simp add: getIputs_alt lookup_def)
  from g tick_no_inputs [OF g, of 3 "[]"] show ?thesis by simp
qed

subsection \<open>What tick does\<close>

text \<open>
  Claim C1.  \<^verbatim>\<open>tick\<close> on a component \<open>c\<close> whose inputs are alive ORs the states of all its
  inputs into its state.  If the new state differs from the state at entry, \<^verbatim>\<open>tick\<close>
  goes on as \<^verbatim>\<open>emit\<close> on the store with the new state; otherwise it returns with the store
  unchanged.  The call of \<^verbatim>\<open>emit\<close> on the component follows the entry of \<^verbatim>\<open>tick\<close> in the
  list of calls if and only if the state has changed.
\<close>

theorem tick_spec:
  assumes "lookup h this = Some c" and "\<forall>x\<in>set (signalInput c). live h x"
  shows "tick (Suc n) this (h, tr) =
           (if state c OR join_states h (signalInput c) \<noteq> state c
            then emit n this (h[this := Some (c\<lparr>state := state c OR join_states h (signalInput c)\<rparr>)],
                              tr @ [TickCall this])
            else Inr (h, tr @ [TickCall this]))
         \<and> (\<forall>h' tr'. tick (Suc n) this (h, tr) = Inr (h', tr') \<longrightarrow>
              ((\<exists>more. tr' = tr @ [TickCall this, EmitCall this] @ more)
                 \<longleftrightarrow> state c OR join_states h (signalInput c) \<noteq> state c))"
proof (intro conjI allI impI)
  show eq: "tick (Suc n) this (h, tr) =
           (if state c OR join_states h (signalInput c) \<noteq> state c
            then emit n this (h[this := Some (c\<lparr>state := state c OR join_states h (signalInput c)\<rparr>)],
                              tr @ [TickCall this])
            else Inr (h, tr @ [TickCall this]))"
    using tick_Suc [OF assms, of n tr] by (simp add: eq_commute)
  fix h' tr'
  assume r: "tick (Suc n) this (h, tr) = Inr (h', tr')"
  show "(\<exists>more. tr' = tr @ [TickCall this, EmitCall this] @ more)
                 \<longleftrightarrow> state c OR join_states h (signalInput c) \<noteq> state c"
  proof (cases "state c OR join_states h (signalInput c) = state c")
    case True
    then have "tr' = tr @ [TickCall this]" using r eq by simp
    then show ?thesis using True by simp
  next
    case False
    then have "emit n this (h[this := Some (c\<lparr>state := state c OR join_states h (signalInput c)\<rparr>)],
                              tr @ [TickCall this]) = Inr (h', tr')"
      using r eq by simp
    from emit_trace [OF this] show ?thesis using False by simp
  qed
qed

theorem tick_spec_witness:
  "lookup [Some \<lparr>state = 4 :: 8 word, slotOutput = [1], signalInput = [1]\<rparr>,
           Some \<lparr>state = 1, slotOutput = [0], signalInput = [0]\<rparr>] 0
     = Some \<lparr>state = 4, slotOutput = [1], signalInput = [1]\<rparr> \<and>
   live [Some \<lparr>state = 4 :: 8 word, slotOutput = [1], signalInput = [1]\<rparr>,
           Some \<lparr>state = 1, slotOutput = [0], signalInput = [0]\<rparr>] 1 \<and>
   tick (Suc 2) 0 ([Some \<lparr>state = 4 :: 8 word, slotOutput = [1], signalInput = [1]\<rparr>,
           Some \<lparr>state = 1, slotOutput = [0], signalInput = [0]\<rparr>], [])
     = emit 2 0 ([Some \<lparr>state = 5 :: 8 word, slotOutput = [1], signalInput = [1]\<rparr>,
           Some \<lparr>state = 1, slotOutput = [0], signalInput = [0]\<rparr>], [TickCall 0])"
proof -
  let ?h = "[Some \<lparr>state = 4 :: 8 word, slotOutput = [1], signalInput = [1]\<rparr>,
           Some \<lparr>state = 1, slotOutput = [0], signalInput = [0]\<rparr>]"
  let ?c = "\<lparr>state = 4 :: 8 word, slotOutput = [1], signalInput = [1]\<rparr>"
  have 1: "lookup ?h 0 = Some ?c" by (simp add: lookup_def)
  have 2: "\<forall>x\<in>set (signalInput ?c). live ?h x" by (simp add: live_def lookup_def)
  have 3: "state ?c OR join_states ?h (signalInput ?c) = 5"
    by (simp add: state_of_def lookup_def)
  from tick_spec [OF 1 2, of 2 "[]"] 3 1 2 show ?thesis by simp
qed

subsection \<open>Symmetry of the two lists\<close>

text \<open>
  Claim C2.  On a store that satisfies the symmetry invariant, for components \<open>A\<close> and \<open>B\<close>
  that are alive, each of the four calls returns, and in the store that it returns \<open>A\<close>, \<open>B\<close>
  and every other component are alive exactly as before, \<open>getState\<close> returns for every component
  what it returned before, and \<open>getIputs\<close> and \<open>getOutputs\<close> return for every component what they
  returned before, but for the two lists of the edge.  After \<open>A.addInput(B)\<close> the inputs of \<open>A\<close>
  are the former ones with \<open>B\<close> pushed and the outputs of \<open>B\<close> the former ones with \<open>A\<close> pushed,
  so that \<open>B\<close> is among the inputs of \<open>A\<close> and \<open>A\<close> among the outputs of \<open>B\<close>; after
  \<open>A.removeInput(B)\<close> the inputs of \<open>A\<close> are the former ones without any \<open>B\<close> and the outputs of
  \<open>B\<close> the former ones without any \<open>A\<close>, so that neither holds; \<open>addOutput\<close> and \<open>removeOutput\<close>
  do the same for the edge from \<open>A\<close> to \<open>B\<close>; and after each of the four calls the invariant
  holds again.  The invariant holds on every store that a sequence of calls builds from the
  empty store.
\<close>

theorem symmetry_connect_disconnect:
  assumes "symmetric (h :: 'w::len heap)" and "live h A" and "live h B"
  shows "(\<exists>h'. addInput v A B h = Inr h' \<and> live h' A \<and> live h' B \<and> length h' = length h
              \<and> (\<forall>x. live h' x = live h x) \<and> (\<forall>x. getState h' x = getState h x)
              \<and> (\<forall>x. getIputs h' x = (if x = A then Inr (push v B (inputs_of h A)) else getIputs h x))
              \<and> (\<forall>x. getOutputs h' x = (if x = B then Inr (push v A (outputs_of h B)) else getOutputs h x))
              \<and> B \<in> set (inputs_of h' A) \<and> A \<in> set (outputs_of h' B) \<and> symmetric h')
       \<and> (\<exists>h'. removeInput A B h = Inr h' \<and> live h' A \<and> live h' B \<and> length h' = length h
              \<and> (\<forall>x. live h' x = live h x) \<and> (\<forall>x. getState h' x = getState h x)
              \<and> (\<forall>x. getIputs h' x = (if x = A then Inr (removeAll B (inputs_of h A)) else getIputs h x))
              \<and> (\<forall>x. getOutputs h' x = (if x = B then Inr (removeAll A (outputs_of h B)) else getOutputs h x))
              \<and> B \<notin> set (inputs_of h' A) \<and> A \<notin> set (outputs_of h' B) \<and> symmetric h')
       \<and> (\<exists>h'. addOutput v A B h = Inr h' \<and> live h' A \<and> live h' B \<and> length h' = length h
              \<and> (\<forall>x. live h' x = live h x) \<and> (\<forall>x. getState h' x = getState h x)
              \<and> (\<forall>x. getOutputs h' x = (if x = A then Inr (push v B (outputs_of h A)) else getOutputs h x))
              \<and> (\<forall>x. getIputs h' x = (if x = B then Inr (push v A (inputs_of h B)) else getIputs h x))
              \<and> B \<in> set (outputs_of h' A) \<and> A \<in> set (inputs_of h' B) \<and> symmetric h')
       \<and> (\<exists>h'. removeOutput A B h = Inr h' \<and> live h' A \<and> live h' B \<and> length h' = length h
              \<and> (\<forall>x. live h' x = live h x) \<and> (\<forall>x. getState h' x = getState h x)
              \<and> (\<forall>x. getOutputs h' x = (if x = A then Inr (removeAll B (outputs_of h A)) else getOutputs h x))
              \<and> (\<forall>x. getIputs h' x = (if x = B then Inr (removeAll A (inputs_of h B)) else getIputs h x))
              \<and> B \<notin> set (outputs_of h' A) \<and> A \<notin> set (inputs_of h' B) \<and> symmetric h')
       \<and> (\<forall>n ops h' tr'. exec v n ops ([] :: 'w heap, []) = Inr (h', tr') \<longrightarrow> symmetric h')"
proof (intro conjI)
  from connectSlot_accessors [OF assms(3) assms(2), of v] obtain h' where
    1: "connectSlot v B A h = Inr h'" and 2: "length h' = length h" "\<forall>x. live h' x = live h x"
      "\<forall>x. getState h' x = getState h x"
      "\<forall>x. getOutputs h' x = (if x = B then Inr (push v A (outputs_of h B)) else getOutputs h x)"
      "\<forall>x. getIputs h' x = (if x = A then Inr (push v B (inputs_of h A)) else getIputs h x)"
      "A \<in> set (outputs_of h' B)" "B \<in> set (inputs_of h' A)"
    by blast
  have "symmetric h'" using assms(1) 1 by (rule connectSlot_symmetric)
  moreover have "live h' A" "live h' B" using 2(2) assms by simp_all
  ultimately show "\<exists>h'. addInput v A B h = Inr h' \<and> live h' A \<and> live h' B \<and> length h' = length h
              \<and> (\<forall>x. live h' x = live h x) \<and> (\<forall>x. getState h' x = getState h x)
              \<and> (\<forall>x. getIputs h' x = (if x = A then Inr (push v B (inputs_of h A)) else getIputs h x))
              \<and> (\<forall>x. getOutputs h' x = (if x = B then Inr (push v A (outputs_of h B)) else getOutputs h x))
              \<and> B \<in> set (inputs_of h' A) \<and> A \<in> set (outputs_of h' B) \<and> symmetric h'"
    unfolding addInput_def using 1 2 by blast
next
  from disconnectSlot_accessors [OF assms(3) assms(2)] obtain h' where
    1: "disconnectSlot B A h = Inr h'" and 2: "length h' = length h" "\<forall>x. live h' x = live h x"
      "\<forall>x. getState h' x = getState h x"
      "\<forall>x. getOutputs h' x = (if x = B then Inr (removeAll A (outputs_of h B)) else getOutputs h x)"
      "\<forall>x. getIputs h' x = (if x = A then Inr (removeAll B (inputs_of h A)) else getIputs h x)"
      "A \<notin> set (outputs_of h' B)" "B \<notin> set (inputs_of h' A)"
    by blast
  have "symmetric h'" using assms(1) 1 by (rule disconnectSlot_symmetric)
  moreover have "live h' A" "live h' B" using 2(2) assms by simp_all
  ultimately show "\<exists>h'. removeInput A B h = Inr h' \<and> live h' A \<and> live h' B \<and> length h' = length h
              \<and> (\<forall>x. live h' x = live h x) \<and> (\<forall>x. getState h' x = getState h x)
              \<and> (\<forall>x. getIputs h' x = (if x = A then Inr (removeAll B (inputs_of h A)) else getIputs h x))
              \<and> (\<forall>x. getOutputs h' x = (if x = B then Inr (removeAll A (outputs_of h B)) else getOutputs h x))
              \<and> B \<notin> set (inputs_of h' A) \<and> A \<notin> set (outputs_of h' B) \<and> symmetric h'"
    unfolding removeInput_def using 1 2 by blast
next
  from connectSlot_accessors [OF assms(2) assms(3), of v] obtain h' where
    1: "connectSlot v A B h = Inr h'" and 2: "length h' = length h" "\<forall>x. live h' x = live h x"
      "\<forall>x. getState h' x = getState h x"
      "\<forall>x. getOutputs h' x = (if x = A then Inr (push v B (outputs_of h A)) else getOutputs h x)"
      "\<forall>x. getIputs h' x = (if x = B then Inr (push v A (inputs_of h B)) else getIputs h x)"
      "B \<in> set (outputs_of h' A)" "A \<in> set (inputs_of h' B)"
    by blast
  have "symmetric h'" using assms(1) 1 by (rule connectSlot_symmetric)
  moreover have "live h' A" "live h' B" using 2(2) assms by simp_all
  ultimately show "\<exists>h'. addOutput v A B h = Inr h' \<and> live h' A \<and> live h' B \<and> length h' = length h
              \<and> (\<forall>x. live h' x = live h x) \<and> (\<forall>x. getState h' x = getState h x)
              \<and> (\<forall>x. getOutputs h' x = (if x = A then Inr (push v B (outputs_of h A)) else getOutputs h x))
              \<and> (\<forall>x. getIputs h' x = (if x = B then Inr (push v A (inputs_of h B)) else getIputs h x))
              \<and> B \<in> set (outputs_of h' A) \<and> A \<in> set (inputs_of h' B) \<and> symmetric h'"
    unfolding addOutput_def using 1 2 by blast
next
  from disconnectSlot_accessors [OF assms(2) assms(3)] obtain h' where
    1: "disconnectSlot A B h = Inr h'" and 2: "length h' = length h" "\<forall>x. live h' x = live h x"
      "\<forall>x. getState h' x = getState h x"
      "\<forall>x. getOutputs h' x = (if x = A then Inr (removeAll B (outputs_of h A)) else getOutputs h x)"
      "\<forall>x. getIputs h' x = (if x = B then Inr (removeAll A (inputs_of h B)) else getIputs h x)"
      "B \<notin> set (outputs_of h' A)" "A \<notin> set (inputs_of h' B)"
    by blast
  have "symmetric h'" using assms(1) 1 by (rule disconnectSlot_symmetric)
  moreover have "live h' A" "live h' B" using 2(2) assms by simp_all
  ultimately show "\<exists>h'. removeOutput A B h = Inr h' \<and> live h' A \<and> live h' B \<and> length h' = length h
              \<and> (\<forall>x. live h' x = live h x) \<and> (\<forall>x. getState h' x = getState h x)
              \<and> (\<forall>x. getOutputs h' x = (if x = A then Inr (removeAll B (outputs_of h A)) else getOutputs h x))
              \<and> (\<forall>x. getIputs h' x = (if x = B then Inr (removeAll A (inputs_of h B)) else getIputs h x))
              \<and> B \<notin> set (outputs_of h' A) \<and> A \<notin> set (inputs_of h' B) \<and> symmetric h'"
    unfolding removeOutput_def using 1 2 by blast
next
  show "\<forall>n ops h' tr'. exec v n ops ([] :: 'w heap, []) = Inr (h', tr') \<longrightarrow> symmetric h'"
    using exec_reachable by blast
qed

theorem symmetry_connect_disconnect_witness:
  "symmetric [Some \<lparr>state = 4 :: 8 word, slotOutput = [1], signalInput = [1, 2]\<rparr>,
              Some \<lparr>state = 1, slotOutput = [0], signalInput = [0]\<rparr>,
              Some \<lparr>state = 2, slotOutput = [0], signalInput = []\<rparr>]
   \<and> live [Some \<lparr>state = 4 :: 8 word, slotOutput = [1], signalInput = [1, 2]\<rparr>,
              Some \<lparr>state = 1, slotOutput = [0], signalInput = [0]\<rparr>,
              Some \<lparr>state = 2, slotOutput = [0], signalInput = []\<rparr>] 0
   \<and> live [Some \<lparr>state = 4 :: 8 word, slotOutput = [1], signalInput = [1, 2]\<rparr>,
              Some \<lparr>state = 1, slotOutput = [0], signalInput = [0]\<rparr>,
              Some \<lparr>state = 2, slotOutput = [0], signalInput = []\<rparr>] 1
   \<and> addInput ComponentFList 0 1
        [Some \<lparr>state = 4 :: 8 word, slotOutput = [1], signalInput = [1, 2]\<rparr>,
         Some \<lparr>state = 1, slotOutput = [0], signalInput = [0]\<rparr>,
         Some \<lparr>state = 2, slotOutput = [0], signalInput = []\<rparr>]
      = Inr [Some \<lparr>state = 4, slotOutput = [1], signalInput = [1, 1, 2]\<rparr>,
             Some \<lparr>state = 1, slotOutput = [0, 0], signalInput = [0]\<rparr>,
             Some \<lparr>state = 2, slotOutput = [0], signalInput = []\<rparr>]
   \<and> symmetric [Some \<lparr>state = 4 :: 8 word, slotOutput = [1], signalInput = [1, 1, 2]\<rparr>,
             Some \<lparr>state = 1, slotOutput = [0, 0], signalInput = [0]\<rparr>,
             Some \<lparr>state = 2, slotOutput = [0], signalInput = []\<rparr>]
   \<and> removeInput 0 1
        [Some \<lparr>state = 4 :: 8 word, slotOutput = [1], signalInput = [1, 2]\<rparr>,
         Some \<lparr>state = 1, slotOutput = [0], signalInput = [0]\<rparr>,
         Some \<lparr>state = 2, slotOutput = [0], signalInput = []\<rparr>]
      = Inr [Some \<lparr>state = 4, slotOutput = [1], signalInput = [2]\<rparr>,
             Some \<lparr>state = 1, slotOutput = [], signalInput = [0]\<rparr>,
             Some \<lparr>state = 2, slotOutput = [0], signalInput = []\<rparr>]
   \<and> symmetric [Some \<lparr>state = 4 :: 8 word, slotOutput = [1], signalInput = [2]\<rparr>,
             Some \<lparr>state = 1, slotOutput = [], signalInput = [0]\<rparr>,
             Some \<lparr>state = 2, slotOutput = [0], signalInput = []\<rparr>]
   \<and> addOutput ComponentFList 0 1
        [Some \<lparr>state = 4 :: 8 word, slotOutput = [1], signalInput = [1, 2]\<rparr>,
         Some \<lparr>state = 1, slotOutput = [0], signalInput = [0]\<rparr>,
         Some \<lparr>state = 2, slotOutput = [0], signalInput = []\<rparr>]
      = Inr [Some \<lparr>state = 4, slotOutput = [1, 1], signalInput = [1, 2]\<rparr>,
             Some \<lparr>state = 1, slotOutput = [0], signalInput = [0, 0]\<rparr>,
             Some \<lparr>state = 2, slotOutput = [0], signalInput = []\<rparr>]
   \<and> symmetric [Some \<lparr>state = 4 :: 8 word, slotOutput = [1, 1], signalInput = [1, 2]\<rparr>,
             Some \<lparr>state = 1, slotOutput = [0], signalInput = [0, 0]\<rparr>,
             Some \<lparr>state = 2, slotOutput = [0], signalInput = []\<rparr>]
   \<and> removeOutput 0 1
        [Some \<lparr>state = 4 :: 8 word, slotOutput = [1], signalInput = [1, 2]\<rparr>,
         Some \<lparr>state = 1, slotOutput = [0], signalInput = [0]\<rparr>,
         Some \<lparr>state = 2, slotOutput = [0], signalInput = []\<rparr>]
      = Inr [Some \<lparr>state = 4, slotOutput = [], signalInput = [1, 2]\<rparr>,
             Some \<lparr>state = 1, slotOutput = [0], signalInput = []\<rparr>,
             Some \<lparr>state = 2, slotOutput = [0], signalInput = []\<rparr>]
   \<and> symmetric [Some \<lparr>state = 4 :: 8 word, slotOutput = [], signalInput = [1, 2]\<rparr>,
             Some \<lparr>state = 1, slotOutput = [0], signalInput = []\<rparr>,
             Some \<lparr>state = 2, slotOutput = [0], signalInput = []\<rparr>]"
proof -
  let ?h = "[Some \<lparr>state = 4 :: 8 word, slotOutput = [1], signalInput = [1, 2]\<rparr>,
             Some \<lparr>state = 1, slotOutput = [0], signalInput = [0]\<rparr>,
             Some \<lparr>state = 2, slotOutput = [0], signalInput = []\<rparr>]"
  have 0: "live ?h 0" by (simp add: live_def lookup_def)
  have 1: "live ?h 1" by (simp add: live_def lookup_def)
  have ai: "addInput ComponentFList 0 1 ?h
      = Inr [Some \<lparr>state = 4, slotOutput = [1], signalInput = [1, 1, 2]\<rparr>,
             Some \<lparr>state = 1, slotOutput = [0, 0], signalInput = [0]\<rparr>,
             Some \<lparr>state = 2, slotOutput = [0], signalInput = []\<rparr>]" by code_simp
  have ri: "removeInput 0 1 ?h
      = Inr [Some \<lparr>state = 4, slotOutput = [1], signalInput = [2]\<rparr>,
             Some \<lparr>state = 1, slotOutput = [], signalInput = [0]\<rparr>,
             Some \<lparr>state = 2, slotOutput = [0], signalInput = []\<rparr>]" by code_simp
  have ao: "addOutput ComponentFList 0 1 ?h
      = Inr [Some \<lparr>state = 4, slotOutput = [1, 1], signalInput = [1, 2]\<rparr>,
             Some \<lparr>state = 1, slotOutput = [0], signalInput = [0, 0]\<rparr>,
             Some \<lparr>state = 2, slotOutput = [0], signalInput = []\<rparr>]" by code_simp
  have ro: "removeOutput 0 1 ?h
      = Inr [Some \<lparr>state = 4, slotOutput = [], signalInput = [1, 2]\<rparr>,
             Some \<lparr>state = 1, slotOutput = [0], signalInput = []\<rparr>,
             Some \<lparr>state = 2, slotOutput = [0], signalInput = []\<rparr>]" by code_simp
  note t = symmetry_connect_disconnect [OF symmetric_three 0 1, of ComponentFList]
  from t have a: "symmetric [Some \<lparr>state = 4 :: 8 word, slotOutput = [1], signalInput = [1, 1, 2]\<rparr>,
             Some \<lparr>state = 1, slotOutput = [0, 0], signalInput = [0]\<rparr>,
             Some \<lparr>state = 2, slotOutput = [0], signalInput = []\<rparr>]"
    unfolding ai by (elim conjE exE) (simp only: sum.inject)
  from t have b: "symmetric [Some \<lparr>state = 4 :: 8 word, slotOutput = [1], signalInput = [2]\<rparr>,
             Some \<lparr>state = 1, slotOutput = [], signalInput = [0]\<rparr>,
             Some \<lparr>state = 2, slotOutput = [0], signalInput = []\<rparr>]"
    unfolding ri by (elim conjE exE) (simp only: sum.inject)
  from t have c: "symmetric [Some \<lparr>state = 4 :: 8 word, slotOutput = [1, 1], signalInput = [1, 2]\<rparr>,
             Some \<lparr>state = 1, slotOutput = [0], signalInput = [0, 0]\<rparr>,
             Some \<lparr>state = 2, slotOutput = [0], signalInput = []\<rparr>]"
    unfolding ao by (elim conjE exE) (simp only: sum.inject)
  from t have d: "symmetric [Some \<lparr>state = 4 :: 8 word, slotOutput = [], signalInput = [1, 2]\<rparr>,
             Some \<lparr>state = 1, slotOutput = [0], signalInput = []\<rparr>,
             Some \<lparr>state = 2, slotOutput = [0], signalInput = []\<rparr>]"
    unfolding ro by (elim conjE exE) (simp only: sum.inject)
  show ?thesis
    by (intro conjI) (fact symmetric_three 0 1 ai ri ao ro a b c d)+
qed

subsection \<open>Removal of edges\<close>

text \<open>
  Claim C8.  \<open>A.removeInput(B)\<close> erases every occurrence of \<open>B\<close> in the inputs of \<open>A\<close> and
  every occurrence of \<open>A\<close> in the outputs of \<open>B\<close>, and leaves all other lists as they were;
  when there is no such edge the store is unchanged; the call never fails on components that
  are alive, and a second call changes nothing.  \<open>A.removeOutput(B)\<close> does the same for the
  edge from \<open>A\<close> to \<open>B\<close>.
\<close>

theorem remove_all_edges_idempotent:
  assumes "live h A" and "live h B"
  shows "(\<exists>h'. removeInput A B h = Inr h'
            \<and> (\<forall>x. inputs_of h' x = (if x = A then removeAll B (inputs_of h A) else inputs_of h x))
            \<and> (\<forall>x. outputs_of h' x = (if x = B then removeAll A (outputs_of h B) else outputs_of h x))
            \<and> (B \<notin> set (inputs_of h A) \<and> A \<notin> set (outputs_of h B) \<longrightarrow> h' = h)
            \<and> removeInput A B h' = Inr h')
       \<and> (\<exists>h'. removeOutput A B h = Inr h'
            \<and> (\<forall>x. outputs_of h' x = (if x = A then removeAll B (outputs_of h A) else outputs_of h x))
            \<and> (\<forall>x. inputs_of h' x = (if x = B then removeAll A (inputs_of h B) else inputs_of h x))
            \<and> (B \<notin> set (outputs_of h A) \<and> A \<notin> set (inputs_of h B) \<longrightarrow> h' = h)
            \<and> removeOutput A B h' = Inr h')"
proof -
  have main: "\<exists>h'. disconnectSlot this s h = Inr h'
            \<and> (\<forall>x. outputs_of h' x = (if x = this then removeAll s (outputs_of h this) else outputs_of h x))
            \<and> (\<forall>x. inputs_of h' x = (if x = s then removeAll this (inputs_of h s) else inputs_of h x))
            \<and> (s \<notin> set (outputs_of h this) \<and> this \<notin> set (inputs_of h s) \<longrightarrow> h' = h)
            \<and> disconnectSlot this s h' = Inr h'"
    if l: "live h this" "live h s" for this s
  proof -
    from disconnectSlot_live [OF l] obtain h' where 1: "disconnectSlot this s h = Inr h'"
      and len: "length h' = length h" and lv: "\<And>b. live h' b = live h b"
      and st: "\<And>b. state_of h' b = state_of h b"
      and out: "\<And>b. outputs_of h' b = (if b = this then removeAll s (outputs_of h this) else outputs_of h b)"
      and inp: "\<And>b. inputs_of h' b = (if b = s then removeAll this (inputs_of h s) else inputs_of h b)"
      by blast
    have noop: "h' = h" if "s \<notin> set (outputs_of h this)" "this \<notin> set (inputs_of h s)"
      using len lv st by (rule heap_eq_readings) (simp_all add: out inp that)
    have l': "live h' this" "live h' s" using l by (simp_all add: lv)
    from disconnectSlot_live [OF l'] obtain h2 where 2: "disconnectSlot this s h' = Inr h2"
      and len2: "length h2 = length h'" and lv2: "\<And>b. live h2 b = live h' b"
      and st2: "\<And>b. state_of h2 b = state_of h' b"
      and out2: "\<And>b. outputs_of h2 b = (if b = this then removeAll s (outputs_of h' this) else outputs_of h' b)"
      and inp2: "\<And>b. inputs_of h2 b = (if b = s then removeAll this (inputs_of h' s) else inputs_of h' b)"
      by blast
    have "h2 = h'"
      using len2 lv2 st2 by (rule heap_eq_readings) (simp_all add: out2 inp2 out inp)
    with 1 2 out inp noop show ?thesis by auto
  qed
  show ?thesis
  proof (rule conjI)
    from main [OF assms(2) assms(1)] obtain h' where "disconnectSlot B A h = Inr h'"
      and "\<forall>x. outputs_of h' x = (if x = B then removeAll A (outputs_of h B) else outputs_of h x)"
      and "\<forall>x. inputs_of h' x = (if x = A then removeAll B (inputs_of h A) else inputs_of h x)"
      and "A \<notin> set (outputs_of h B) \<and> B \<notin> set (inputs_of h A) \<longrightarrow> h' = h"
      and "disconnectSlot B A h' = Inr h'"
      by blast
    then show "\<exists>h'. removeInput A B h = Inr h'
            \<and> (\<forall>x. inputs_of h' x = (if x = A then removeAll B (inputs_of h A) else inputs_of h x))
            \<and> (\<forall>x. outputs_of h' x = (if x = B then removeAll A (outputs_of h B) else outputs_of h x))
            \<and> (B \<notin> set (inputs_of h A) \<and> A \<notin> set (outputs_of h B) \<longrightarrow> h' = h)
            \<and> removeInput A B h' = Inr h'"
      unfolding removeInput_def by blast
  next
    from main [OF assms(1) assms(2)]
    show "\<exists>h'. removeOutput A B h = Inr h'
            \<and> (\<forall>x. outputs_of h' x = (if x = A then removeAll B (outputs_of h A) else outputs_of h x))
            \<and> (\<forall>x. inputs_of h' x = (if x = B then removeAll A (inputs_of h B) else inputs_of h x))
            \<and> (B \<notin> set (outputs_of h A) \<and> A \<notin> set (inputs_of h B) \<longrightarrow> h' = h)
            \<and> removeOutput A B h' = Inr h'"
      unfolding removeOutput_def .
  qed
qed

theorem remove_all_edges_idempotent_witness:
  "live [Some \<lparr>state = 0 :: 8 word, slotOutput = [], signalInput = [1, 1]\<rparr>,
         Some \<lparr>state = 0, slotOutput = [0, 0], signalInput = []\<rparr>] 0
   \<and> live [Some \<lparr>state = 0 :: 8 word, slotOutput = [], signalInput = [1, 1]\<rparr>,
         Some \<lparr>state = 0, slotOutput = [0, 0], signalInput = []\<rparr>] 1
   \<and> (\<exists>h'. removeInput 0 1 [Some \<lparr>state = 0 :: 8 word, slotOutput = [], signalInput = [1, 1]\<rparr>,
         Some \<lparr>state = 0, slotOutput = [0, 0], signalInput = []\<rparr>] = Inr h'
         \<and> inputs_of h' 0 = [] \<and> outputs_of h' 1 = [] \<and> removeInput 0 1 h' = Inr h')"
proof -
  let ?h = "[Some \<lparr>state = 0 :: 8 word, slotOutput = [], signalInput = [1, 1]\<rparr>,
             Some \<lparr>state = 0, slotOutput = [0, 0], signalInput = []\<rparr>]"
  have 0: "live ?h 0" by (simp add: live_def lookup_def)
  have 1: "live ?h 1" by (simp add: live_def lookup_def)
  have i: "removeAll 1 (inputs_of ?h 0) = []" by (simp add: inputs_of_def lookup_def)
  have o: "removeAll 0 (outputs_of ?h 1) = []" by (simp add: outputs_of_def lookup_def)
  from remove_all_edges_idempotent [OF 0 1] obtain h' where r: "removeInput 0 1 ?h = Inr h'"
    and a: "\<forall>x. inputs_of h' x = (if x = 0 then removeAll 1 (inputs_of ?h 0) else inputs_of ?h x)"
    and b: "\<forall>x. outputs_of h' x = (if x = 1 then removeAll 0 (outputs_of ?h 1) else outputs_of ?h x)"
    and r': "removeInput 0 1 h' = Inr h'"
    by blast
  from a have "inputs_of h' 0 = removeAll 1 (inputs_of ?h 0)" by (simp only: refl if_True)
  then have a': "inputs_of h' 0 = []" by (simp only: i)
  from b have "outputs_of h' 1 = removeAll 0 (outputs_of ?h 1)" by (simp only: refl if_True)
  then have b': "outputs_of h' 1 = []" by (simp only: o)
  from 0 1 r a' b' r' show ?thesis by blast
qed

subsection \<open>Cycle stabilisation\<close>

text \<open>
  Claim C4.  For a width of at least two bits, let \<open>A\<close> (address 0) be constructed with bit 0
  set and \<open>B\<close> (address 1) with bit 1 set, and let each be the only input of the other.  Then
  \<^verbatim>\<open>tick\<close> on \<open>A\<close>, and likewise \<^verbatim>\<open>tick\<close> on \<open>B\<close>, returns as soon as three nested calls are
  allowed: the calls made are tick, emit, tick, emit, tick, and at the end both components
  have the state 3, that is exactly the bits 0 and 1.
\<close>

theorem cycle_stabilises:
  assumes "2 \<le> LENGTH('w::len)" and "3 \<le> n"
  shows "\<exists>h :: 'w heap. two_cycle v = Inr h
           \<and> getIputs h 0 = Inr [1] \<and> getIputs h 1 = Inr [0]
           \<and> getState h 0 = Inr 1 \<and> getState h 1 = Inr 2
           \<and> (\<exists>h' tr. tick n 0 (h, []) = Inr (h', tr) \<and> getState h' 0 = Inr 3 \<and> getState h' 1 = Inr 3
                  \<and> tr = [TickCall 0, EmitCall 0, TickCall 1, EmitCall 1, TickCall 0])
           \<and> (\<exists>h' tr. tick n 1 (h, []) = Inr (h', tr) \<and> getState h' 0 = Inr 3 \<and> getState h' 1 = Inr 3
                  \<and> tr = [TickCall 1, EmitCall 1, TickCall 0, EmitCall 0, TickCall 1])
           \<and> (\<forall>k. bit (3 :: 'w word) k \<longleftrightarrow> k = 0 \<or> k = 1)"
proof -
  from assms(2) obtain m where n: "n = Suc (Suc (Suc m))"
    by (metis Suc_le_D numeral_3_eq_3 Suc_le_mono)
  note ne = word_1_neq_3 [where 'a = 'w, OF assms(1)] word_2_neq_3 [where 'a = 'w]
  let ?h = "[Some \<lparr>state = 1 :: 'w word, slotOutput = [1], signalInput = [1]\<rparr>,
             Some \<lparr>state = 2, slotOutput = [0], signalInput = [0]\<rparr>]"
  let ?h' = "[Some \<lparr>state = 3 :: 'w word, slotOutput = [1], signalInput = [1]\<rparr>,
             Some \<lparr>state = 3, slotOutput = [0], signalInput = [0]\<rparr>]"
  have A: "tick n 0 (?h, []) = Inr (?h', [TickCall 0, EmitCall 0, TickCall 1, EmitCall 1, TickCall 0])"
    using ne
    by (simp add: n emit_body_def getState_alt getIputs_alt getOutputs_alt lookup_def
        tick_step_def modify_alt)
  have B: "tick n 1 (?h, []) = Inr (?h', [TickCall 1, EmitCall 1, TickCall 0, EmitCall 0, TickCall 1])"
    using ne
    by (simp add: n emit_body_def getState_alt getIputs_alt getOutputs_alt lookup_def
        tick_step_def modify_alt)
  have g: "getIputs ?h 0 = Inr [1]" "getIputs ?h 1 = Inr [0]" "getState ?h 0 = Inr 1" "getState ?h 1 = Inr 2"
    "getState ?h' 0 = Inr 3" "getState ?h' 1 = Inr 3"
    by (simp_all add: getState_alt getIputs_alt lookup_def)
  have b: "\<forall>k. bit (3 :: 'w word) k \<longleftrightarrow> k = 0 \<or> k = 1"
    using bit_word_3 [where 'a = 'w, OF assms(1)] by (auto simp: less_2_cases_iff)
  show ?thesis
    using two_cycle_eq [where 'w = 'w, of v] A B g b by blast
qed

theorem cycle_stabilises_witness:
  "2 \<le> LENGTH(8) \<and> (3::nat) \<le> 3
   \<and> (\<exists>h :: 8 heap. two_cycle ComponentFList = Inr h
         \<and> (\<exists>h' tr. tick 3 0 (h, []) = Inr (h', tr) \<and> getState h' 0 = Inr 3 \<and> getState h' 1 = Inr 3))"
proof -
  have 1: "2 \<le> LENGTH(8)" by simp
  have 2: "(3::nat) \<le> 3" by simp
  from cycle_stabilises [where 'w = 8, OF 1 2, of ComponentFList] 1 2 show ?thesis by blast
qed

subsection \<open>Bits are never cleared\<close>

text \<open>
  Claim C5.  After any sequence of calls of \<^verbatim>\<open>tick\<close>, on any store, each component has every
  bit set that it had before.  Such a sequence returns, on a store without dangling
  pointers, whenever the allowed depth of nesting exceeds the slack of the store.
\<close>

theorem tick_never_clears_a_bit:
  "(\<forall>h' tr'. foldE (tick n) xs (h, tr) = Inr (h', tr') \<longrightarrow>
      (\<forall>a s. getState h a = Inr s \<longrightarrow> (\<exists>s'. getState h' a = Inr s' \<and> (\<forall>k. bit s k \<longrightarrow> bit s' k))))
   \<and> (well_formed h \<and> (\<forall>x\<in>set xs. live h x) \<and> slack h < n \<longrightarrow>
        (\<exists>w'. foldE (tick n) xs (h, tr) = Inr w'))"
proof (intro conjI allI impI)
  fix h' tr' a s
  assume run: "foldE (tick n) xs (h, tr) = Inr (h', tr')" and s: "getState h a = Inr s"
  from run have g: "grows h h'" by (rule ticks_grow)
  from s have l: "live h a" and st: "state_of h a = s" by (simp_all add: getState_live)
  have l': "live h' a" using g l by (simp add: grows_def)
  have o: "s OR state_of h' a = state_of h' a" using g st by (auto simp: grows_def)
  have "bit (state_of h' a) k" if "bit s k" for k
  proof -
    have "bit (s OR state_of h' a) k" using that by (simp add: bit_or_iff)
    then show ?thesis by (simp only: o)
  qed
  then show "\<exists>s'. getState h' a = Inr s' \<and> (\<forall>k. bit s k \<longrightarrow> bit s' k)"
    using l' by (simp add: getState_live)
next
  assume "well_formed h \<and> (\<forall>x\<in>set xs. live h x) \<and> slack h < n"
  then show "\<exists>w'. foldE (tick n) xs (h, tr) = Inr w'"
    using ticks_total by blast
qed

theorem tick_never_clears_a_bit_witness:
  "foldE (tick 4) [0, 1] ([Some \<lparr>state = 1 :: 2 word, slotOutput = [1], signalInput = [1]\<rparr>,
                          Some \<lparr>state = 2, slotOutput = [0], signalInput = [0]\<rparr>], [])
     = Inr ([Some \<lparr>state = 3, slotOutput = [1], signalInput = [1]\<rparr>,
             Some \<lparr>state = 3, slotOutput = [0], signalInput = [0]\<rparr>],
            [TickCall 0, EmitCall 0, TickCall 1, EmitCall 1, TickCall 0, TickCall 1])
   \<and> getState [Some \<lparr>state = 1 :: 2 word, slotOutput = [1], signalInput = [1]\<rparr>,
                Some \<lparr>state = 2, slotOutput = [0], signalInput = [0]\<rparr>] 0 = Inr 1
   \<and> (\<exists>s'. getState [Some \<lparr>state = 3 :: 2 word, slotOutput = [1], signalInput = [1]\<rparr>,
                      Some \<lparr>state = 3, slotOutput = [0], signalInput = [0]\<rparr>] 0 = Inr s' \<and> bit s' 0)
   \<and> well_formed [Some \<lparr>state = 1 :: 2 word, slotOutput = [1], signalInput = [1]\<rparr>,
                   Some \<lparr>state = 2, slotOutput = [0], signalInput = [0]\<rparr>]
   \<and> live [Some \<lparr>state = 1 :: 2 word, slotOutput = [1], signalInput = [1]\<rparr>,
            Some \<lparr>state = 2, slotOutput = [0], signalInput = [0]\<rparr>] 0
   \<and> live [Some \<lparr>state = 1 :: 2 word, slotOutput = [1], signalInput = [1]\<rparr>,
            Some \<lparr>state = 2, slotOutput = [0], signalInput = [0]\<rparr>] 1
   \<and> slack [Some \<lparr>state = 1 :: 2 word, slotOutput = [1], signalInput = [1]\<rparr>,
             Some \<lparr>state = 2, slotOutput = [0], signalInput = [0]\<rparr>] < 4
   \<and> (\<exists>w'. foldE (tick 4) [0, 1] ([Some \<lparr>state = 1 :: 2 word, slotOutput = [1], signalInput = [1]\<rparr>,
                          Some \<lparr>state = 2, slotOutput = [0], signalInput = [0]\<rparr>], []) = Inr w')"
proof -
  let ?h = "[Some \<lparr>state = 1 :: 2 word, slotOutput = [1], signalInput = [1]\<rparr>,
             Some \<lparr>state = 2, slotOutput = [0], signalInput = [0]\<rparr>]"
  let ?h' = "[Some \<lparr>state = 3 :: 2 word, slotOutput = [1], signalInput = [1]\<rparr>,
              Some \<lparr>state = 3, slotOutput = [0], signalInput = [0]\<rparr>]"
  let ?tr = "[TickCall 0, EmitCall 0, TickCall 1, EmitCall 1, TickCall 0, TickCall 1]"
  have run: "foldE (tick 4) [0, 1] (?h, []) = Inr (?h', ?tr)" by code_simp
  have g: "getState ?h 0 = Inr 1" by (simp add: getState_alt lookup_def)
  have l: "live ?h 0" "live ?h 1" by (simp_all add: live_def lookup_def)
  have s: "slack ?h < 4" by code_simp
  have b: "bit (1 :: 2 word) 0" by simp
  note T = tick_never_clears_a_bit [of 4 "[0, 1]" ?h "[]"]
  from T run g b have 1: "\<exists>s'. getState ?h' 0 = Inr s' \<and> bit s' 0" by blast
  from T wf_cycle2 l s have 2: "\<exists>w'. foldE (tick 4) [0, 1] (?h, []) = Inr w'" by simp
  from run g 1 wf_cycle2 l s 2 show ?thesis by blast
qed

subsection \<open>Copy construction\<close>




subsection \<open>Destruction\<close>

text \<open>
  Claim C6.  On a store that has no dangling pointer and satisfies the symmetry invariant,
  the destructor of a component \<open>B\<close> that is alive returns; afterwards \<open>B\<close> is dead, \<open>B\<close> occurs in
  no list of inputs or outputs anywhere, every other component keeps its state and loses
  exactly the occurrences of \<open>B\<close> in its lists, and both invariants hold again.  For the graph
  \<open>A \<rightarrow> B \<rightarrow> C\<close> (addresses 0, 1, 2, any initial values): after the destruction of \<open>B\<close> the
  outputs of \<open>A\<close> and the inputs of \<open>C\<close> are empty, and neither \<^verbatim>\<open>tick\<close> nor \<^verbatim>\<open>emit\<close> on \<open>A\<close>
  changes the store: \<open>C\<close> keeps its state and is not called.  Every store that a sequence of
  calls builds from the empty store has no dangling pointer and satisfies the symmetry
  invariant.
\<close>

theorem destructor_disconnects:
  "(well_formed (h :: 'w::len heap) \<and> symmetric h \<and> live h B \<longrightarrow>
      (\<exists>h'. destroy B h = Inr h' \<and> getState h' B = Inl InvalidReference
         \<and> (\<forall>x. B \<notin> set (inputs_of h' x) \<and> B \<notin> set (outputs_of h' x))
         \<and> (\<forall>x. x \<noteq> B \<longrightarrow> live h' x = live h x \<and> state_of h' x = state_of h x
                \<and> inputs_of h' x = removeAll B (inputs_of h x)
                \<and> outputs_of h' x = removeAll B (outputs_of h x))
         \<and> well_formed h' \<and> symmetric h'))
   \<and> (\<exists>h0 h' :: 'w::len heap. line3 v a b c = Inr h0
         \<and> getOutputs h0 0 = Inr [1] \<and> getIputs h0 1 = Inr [0]
         \<and> getOutputs h0 1 = Inr [2] \<and> getIputs h0 2 = Inr [1]
         \<and> destroy 1 h0 = Inr h'
         \<and> getOutputs h' 0 = Inr [] \<and> getIputs h' 2 = Inr []
         \<and> getState h' 2 = Inr (of_nat c)
         \<and> (\<forall>n tr. tick (Suc n) 0 (h', tr) = Inr (h', tr @ [TickCall 0]))
         \<and> (\<forall>n tr. emit n 0 (h', tr) = Inr (h', tr @ [EmitCall 0])))
   \<and> (\<forall>n ops h' tr'. exec v n ops ([] :: 'w heap, []) = Inr (h', tr') \<longrightarrow>
         well_formed h' \<and> symmetric h')"
proof (intro conjI impI)
  assume a: "well_formed h \<and> symmetric h \<and> live h B"
  then have wf: "well_formed h" and sy: "symmetric h" and l: "live h B" by simp_all
  from destroy_readings [OF wf sy l] obtain h' where run: "destroy B h = Inr h'"
    and lv: "\<And>b. live h' b = (live h b \<and> b \<noteq> B)"
    and rest: "\<And>b. b \<noteq> B \<Longrightarrow> state_of h' b = state_of h b \<and>
                 inputs_of h' b = removeAll B (inputs_of h b) \<and>
                 outputs_of h' b = removeAll B (outputs_of h b)"
    by blast
  have dead: "getState h' B = Inl InvalidReference"
    using lv [of B] by (simp add: getState_alt live_def split: option.splits)
  have none: "B \<notin> set (inputs_of h' x) \<and> B \<notin> set (outputs_of h' x)" for x
  proof (cases "x = B")
    case True
    then have "lookup h' x = None" using lv [of B] by (simp add: live_def)
    then show ?thesis by (simp add: inputs_of_def outputs_of_def)
  next
    case False
    then show ?thesis by (simp add: rest)
  qed
  have keep: "live h' x = live h x \<and> state_of h' x = state_of h x
                \<and> inputs_of h' x = removeAll B (inputs_of h x)
                \<and> outputs_of h' x = removeAll B (outputs_of h x)" if "x \<noteq> B" for x
    using that by (simp add: lv rest)
  from destroy_invariants [OF wf sy run l] run dead none keep
  show "\<exists>h'. destroy B h = Inr h' \<and> getState h' B = Inl InvalidReference
         \<and> (\<forall>x. B \<notin> set (inputs_of h' x) \<and> B \<notin> set (outputs_of h' x))
         \<and> (\<forall>x. x \<noteq> B \<longrightarrow> live h' x = live h x \<and> state_of h' x = state_of h x
                \<and> inputs_of h' x = removeAll B (inputs_of h x)
                \<and> outputs_of h' x = removeAll B (outputs_of h x))
         \<and> well_formed h' \<and> symmetric h'"
    by blast
next
  let ?h0 = "[Some \<lparr>state = of_nat a :: 'w word, slotOutput = [1], signalInput = []\<rparr>,
              Some \<lparr>state = of_nat b, slotOutput = [2], signalInput = [0]\<rparr>,
              Some \<lparr>state = of_nat c, slotOutput = [], signalInput = [1]\<rparr>]"
  let ?h' = "[Some \<lparr>state = of_nat a :: 'w word, slotOutput = [], signalInput = []\<rparr>, None,
              Some \<lparr>state = of_nat c, slotOutput = [], signalInput = []\<rparr>]"
  have 1: "line3 v a b c = Inr ?h0" by (rule line3_eq)
  have 2: "getOutputs ?h0 0 = Inr [1]" "getIputs ?h0 1 = Inr [0]"
    "getOutputs ?h0 1 = Inr [2]" "getIputs ?h0 2 = Inr [1]"
    by (simp_all add: getOutputs_alt getIputs_alt lookup_def)
  have 3: "destroy 1 ?h0 = Inr ?h'" by (rule line3_destroy)
  have 4: "getOutputs ?h' 0 = Inr []" "getIputs ?h' 2 = Inr []" "getState ?h' 2 = Inr (of_nat c)"
    by (simp_all add: getOutputs_alt getIputs_alt getState_alt lookup_def)
  have i0: "getIputs ?h' 0 = Inr []" by (simp add: getIputs_alt lookup_def)
  have 5: "tick (Suc n) 0 (?h', tr) = Inr (?h', tr @ [TickCall 0])" for n tr
    using i0 by (rule tick_without_inputs)
  have 6: "emit n 0 (?h', tr) = Inr (?h', tr @ [EmitCall 0])" for n tr
    by (simp add: emit_def emit_body_def 4)
  from 1 2 3 4 5 6
  show "\<exists>h0 h' :: 'w heap. line3 v a b c = Inr h0
         \<and> getOutputs h0 0 = Inr [1] \<and> getIputs h0 1 = Inr [0]
         \<and> getOutputs h0 1 = Inr [2] \<and> getIputs h0 2 = Inr [1]
         \<and> destroy 1 h0 = Inr h'
         \<and> getOutputs h' 0 = Inr [] \<and> getIputs h' 2 = Inr []
         \<and> getState h' 2 = Inr (of_nat c)
         \<and> (\<forall>n tr. tick (Suc n) 0 (h', tr) = Inr (h', tr @ [TickCall 0]))
         \<and> (\<forall>n tr. emit n 0 (h', tr) = Inr (h', tr @ [EmitCall 0]))"
    by blast
next
  show "\<forall>n ops h' tr'. exec v n ops ([] :: 'w heap, []) = Inr (h', tr') \<longrightarrow>
         well_formed h' \<and> symmetric h'"
    using exec_reachable by blast
qed

theorem destructor_disconnects_witness:
  "well_formed [Some \<lparr>state = 1 :: 8 word, slotOutput = [1], signalInput = []\<rparr>,
                Some \<lparr>state = 0, slotOutput = [2], signalInput = [0]\<rparr>,
                Some \<lparr>state = 0, slotOutput = [], signalInput = [1]\<rparr>]
   \<and> symmetric [Some \<lparr>state = 1 :: 8 word, slotOutput = [1], signalInput = []\<rparr>,
                Some \<lparr>state = 0, slotOutput = [2], signalInput = [0]\<rparr>,
                Some \<lparr>state = 0, slotOutput = [], signalInput = [1]\<rparr>]
   \<and> live [Some \<lparr>state = 1 :: 8 word, slotOutput = [1], signalInput = []\<rparr>,
            Some \<lparr>state = 0, slotOutput = [2], signalInput = [0]\<rparr>,
            Some \<lparr>state = 0, slotOutput = [], signalInput = [1]\<rparr>] 1
   \<and> (\<exists>h'. destroy 1 [Some \<lparr>state = 1 :: 8 word, slotOutput = [1], signalInput = []\<rparr>,
                        Some \<lparr>state = 0, slotOutput = [2], signalInput = [0]\<rparr>,
                        Some \<lparr>state = 0, slotOutput = [], signalInput = [1]\<rparr>] = Inr h'
          \<and> getState h' 1 = Inl InvalidReference \<and> well_formed h' \<and> symmetric h')"
proof -
  let ?h = "[Some \<lparr>state = 1 :: 8 word, slotOutput = [1], signalInput = []\<rparr>,
             Some \<lparr>state = 0, slotOutput = [2], signalInput = [0]\<rparr>,
             Some \<lparr>state = 0, slotOutput = [], signalInput = [1]\<rparr>]"
  have l: "live ?h 1" by (simp add: live_def lookup_def)
  from destructor_disconnects [of ?h 1 ComponentList 0 0 0] wf_line3 sym_line3 l
  have "\<exists>h'. destroy 1 ?h = Inr h' \<and> getState h' 1 = Inl InvalidReference \<and> well_formed h' \<and> symmetric h'"
    by blast
  with wf_line3 sym_line3 l show ?thesis by blast
qed

subsection \<open>Propagation along a chain\<close>

text \<open>
  Claim C3, as stated, fails: \<^verbatim>\<open>tick\<close> on component 0 of a chain does not propagate, since
  component 0 has no inputs and \<^verbatim>\<open>tick\<close> calls \<^verbatim>\<open>emit\<close> only when the state has changed.  In the
  chain of three components built with the initial value 5, \<^verbatim>\<open>tick\<close> on component 0 returns
  the same store, the only call made is that \<^verbatim>\<open>tick\<close>, and component 1 still has the state 0.
\<close>

theorem chain_tick_counterexample:
  "chain ComponentList 5 3
     = Inr [Some \<lparr>state = 5 :: 8 word, slotOutput = [1], signalInput = []\<rparr>,
            Some \<lparr>state = 0, slotOutput = [2], signalInput = [0]\<rparr>,
            Some \<lparr>state = 0, slotOutput = [], signalInput = [1]\<rparr>]
   \<and> tick 3 0 ([Some \<lparr>state = 5 :: 8 word, slotOutput = [1], signalInput = []\<rparr>,
                 Some \<lparr>state = 0, slotOutput = [2], signalInput = [0]\<rparr>,
                 Some \<lparr>state = 0, slotOutput = [], signalInput = [1]\<rparr>], [])
     = Inr ([Some \<lparr>state = 5, slotOutput = [1], signalInput = []\<rparr>,
             Some \<lparr>state = 0, slotOutput = [2], signalInput = [0]\<rparr>,
             Some \<lparr>state = 0, slotOutput = [], signalInput = [1]\<rparr>], [TickCall 0])
   \<and> getState [Some \<lparr>state = 5 :: 8 word, slotOutput = [1], signalInput = []\<rparr>,
                Some \<lparr>state = 0, slotOutput = [2], signalInput = [0]\<rparr>,
                Some \<lparr>state = 0, slotOutput = [], signalInput = [1]\<rparr>] 1 = Inr 0
   \<and> (5 :: 8 word) \<noteq> 0"
  by code_simp

text \<open>
  Claim C3, amended.  Take a chain of \<open>N \<ge> 1\<close> components in which each component has the
  previous one as its only input, component 0 constructed with a nonzero state and the others
  with the default state.  Then \<^verbatim>\<open>tick\<close> on component 0 changes nothing and calls no \<^verbatim>\<open>emit\<close>.
  One call of \<^verbatim>\<open>emit\<close> on component 0 returns (the depth \<open>N\<close> suffices) and, by the cascade of
  \<^verbatim>\<open>tick\<close> and \<^verbatim>\<open>emit\<close> down the chain, leaves that state on every one of the \<open>N\<close> components.
  A second \<^verbatim>\<open>emit\<close> on component 0 changes nothing and causes no further \<^verbatim>\<open>emit\<close>: only
  \<^verbatim>\<open>tick\<close> of component 1 is called, which finds no change; and \<^verbatim>\<open>tick\<close> on component 0 still
  does nothing.
\<close>

theorem chain_fixed_point:
  assumes "0 < N" and "(of_nat s :: 'w::len word) \<noteq> 0" and "N \<le> n"
  shows "\<exists>h h' :: 'w heap. chain v s N = Inr h \<and> is_chain N h
           \<and> getState h 0 = Inr (of_nat s) \<and> (\<forall>i. 0 < i \<and> i < N \<longrightarrow> getState h i = Inr 0)
           \<and> tick n 0 (h, []) = Inr (h, [TickCall 0])
           \<and> emit n 0 (h, []) = Inr (h', EmitCall 0 # chain_calls 1 N)
           \<and> is_chain N h' \<and> (\<forall>i<N. getState h' i = Inr (of_nat s))
           \<and> emit n 0 (h', []) = Inr (h', EmitCall 0 # (if 1 < N then [TickCall 1] else []))
           \<and> tick n 0 (h', []) = Inr (h', [TickCall 0])"
proof -
  let ?s = "of_nat s :: 'w word"
  from chain_shape [OF assms(1), of v s] obtain h :: "'w heap" where run: "chain v s N = Inr h"
    and ch: "is_chain N h" and s0: "state_of h 0 = ?s" and sr: "\<And>i. 0 < i \<Longrightarrow> state_of h i = 0"
    by blast
  from assms(1,3) obtain m where n: "n = Suc m" by (cases n) auto
  have live: "live h i" if "i < N" for i using ch that by (simp add: is_chain_def)
  have g0: "getState h 0 = Inr ?s" using live [OF assms(1)] s0 by (simp add: getState_live)
  have gr: "\<forall>i. 0 < i \<and> i < N \<longrightarrow> getState h i = Inr 0" using live sr by (simp add: getState_live)
  have in0: "getIputs h 0 = Inr []"
    using getIputs_live [OF live [OF assms(1)]] ch assms(1) by (simp add: is_chain_def)
  have t0: "tick n 0 (h, []) = Inr (h, [TickCall 0])"
    unfolding n using tick_without_inputs [OF in0, of m "[]"] by simp
  have out0: "getOutputs h 0 = Inr (if 1 < N then [1] else [])"
    using getOutputs_live [OF live [OF assms(1)]] ch assms(1) by (simp add: is_chain_def)
  have e: "\<exists>h'. emit n 0 (h, []) = Inr (h', EmitCall 0 # chain_calls 1 N) \<and> is_chain N h'
             \<and> (\<forall>i<N. state_of h' i = ?s)"
  proof (cases "1 < N")
    case True
    have "\<exists>h'. tick n 1 (h, [] @ [EmitCall 0]) = Inr (h', ([] @ [EmitCall 0]) @ chain_calls 1 N)
            \<and> is_chain N h' \<and> (\<forall>i<N. state_of h' i = ?s)"
    proof (rule chain_tick [OF ch])
      show "0 < (1::nat)" by simp
      show "1 < N" by fact
      show "\<forall>i<1. state_of h i = ?s" by (simp add: s0)
      show "\<forall>i. 1 \<le> i \<and> i < N \<longrightarrow> state_of h i = 0" by (simp add: sr)
      show "?s \<noteq> 0" by fact
      show "N - 1 \<le> n" using assms(3) by simp
    qed
    then show ?thesis
      using True by (auto simp: emit_def emit_body_def out0 simp del: tick.simps)
  next
    case False
    then have N: "N = 1" using assms(1) by simp
    have "\<forall>i<N. state_of h i = ?s" by (simp add: N s0)
    then show ?thesis using ch by (auto simp: emit_def emit_body_def out0 N)
  qed
  then obtain h' where e1: "emit n 0 (h, []) = Inr (h', EmitCall 0 # chain_calls 1 N)"
    and ch': "is_chain N h'" and st': "\<And>i. i < N \<Longrightarrow> state_of h' i = ?s"
    by blast
  have live': "live h' i" if "i < N" for i using ch' that by (simp add: is_chain_def)
  have g': "\<forall>i<N. getState h' i = Inr ?s" using live' st' by (simp add: getState_live)
  have in0': "getIputs h' 0 = Inr []"
    using getIputs_live [OF live' [OF assms(1)]] ch' assms(1) by (simp add: is_chain_def)
  have t0': "tick n 0 (h', []) = Inr (h', [TickCall 0])"
    unfolding n using tick_without_inputs [OF in0', of m "[]"] by simp
  have out0': "getOutputs h' 0 = Inr (if 1 < N then [1] else [])"
    using getOutputs_live [OF live' [OF assms(1)]] ch' assms(1) by (simp add: is_chain_def)
  have e2: "emit n 0 (h', []) = Inr (h', EmitCall 0 # (if 1 < N then [TickCall 1] else []))"
  proof (cases "1 < N")
    case True
    from live' [OF True] obtain c where c: "lookup h' 1 = Some c" by (auto simp: live_def)
    have "inputs_of h' 1 = [0]" using ch' True by (simp add: is_chain_def)
    then have sig: "signalInput c = [0]" using c by (simp add: inputs_of_def)
    have l: "\<forall>x\<in>set (signalInput c). live h' x" using live' [OF assms(1)] by (simp add: sig)
    have sc: "state c = ?s" using st' [OF True] c by (simp add: state_of_def)
    have j: "state c OR join_states h' (signalInput c) = state c"
      using st' [OF assms(1)] by (simp add: sig sc)
    have "tick n 1 (h', [EmitCall 0]) = Inr (h', [EmitCall 0, TickCall 1])"
      unfolding n tick_Suc [OF c l] j by simp
    then show ?thesis
      using True by (simp add: emit_def emit_body_def out0' del: tick.simps)
  next
    case False
    then show ?thesis by (simp add: emit_def emit_body_def out0')
  qed
  from run ch g0 gr t0 e1 ch' g' e2 t0' show ?thesis by blast
qed

theorem chain_fixed_point_witness:
  "(0::nat) < 3 \<and> (of_nat 5 :: 8 word) \<noteq> 0 \<and> (3::nat) \<le> 3
   \<and> (\<exists>h h' :: 8 heap. chain ComponentFList 5 3 = Inr h
         \<and> tick 3 0 (h, []) = Inr (h, [TickCall 0])
         \<and> emit 3 0 (h, []) = Inr (h', EmitCall 0 # chain_calls 1 3)
         \<and> getState h' 2 = Inr (of_nat 5))"
proof -
  have 1: "(0::nat) < 3" by simp
  have 2: "(of_nat 5 :: 8 word) \<noteq> 0" by simp
  have 3: "(3::nat) \<le> 3" by simp
  from chain_fixed_point [OF 1 2 3, of ComponentFList]
  obtain h h' :: "8 heap" where "chain ComponentFList 5 3 = Inr h"
    "tick 3 0 (h, []) = Inr (h, [TickCall 0])"
    "emit 3 0 (h, []) = Inr (h', EmitCall 0 # chain_calls 1 3)"
    "\<forall>i<3. getState h' i = Inr (of_nat 5)"
    by blast
  moreover from this(4) have "getState h' 2 = Inr (of_nat 5)" by simp
  ultimately show ?thesis using 1 2 3 by blast
qed

subsection \<open>The two classes\<close>

text \<open>
  Claim C9, as stated, fails: the lists of the two classes do not coincide.  \<^verbatim>\<open>connectSlot\<close>
  appends in the class built on \<^verbatim>\<open>std::list\<close> and prepends in the class built on
  \<^verbatim>\<open>std::forward_list\<close>.  After three constructions and the calls \<open>A.addOutput(B)\<close> and
  \<open>A.addOutput(C)\<close> (addresses 0, 1, 2), \<^verbatim>\<open>getOutputs\<close> of \<open>A\<close> is \<open>[1, 2]\<close> in the one class and
  \<open>[2, 1]\<close> in the other.
\<close>

theorem variants_differ_in_order_counterexample:
  "exec ComponentList 0 [Mutate (Construct 0), Mutate (Construct 0), Mutate (Construct 0),
                         Mutate (AddOutput 0 1), Mutate (AddOutput 0 2)] ([], [])
     = Inr ([Some \<lparr>state = 0 :: 8 word, slotOutput = [1, 2], signalInput = []\<rparr>,
             Some \<lparr>state = 0, slotOutput = [], signalInput = [0]\<rparr>,
             Some \<lparr>state = 0, slotOutput = [], signalInput = [0]\<rparr>], [])
   \<and> exec ComponentFList 0 [Mutate (Construct 0), Mutate (Construct 0), Mutate (Construct 0),
                            Mutate (AddOutput 0 1), Mutate (AddOutput 0 2)] ([], [])
     = Inr ([Some \<lparr>state = 0 :: 8 word, slotOutput = [2, 1], signalInput = []\<rparr>,
             Some \<lparr>state = 0, slotOutput = [], signalInput = [0]\<rparr>,
             Some \<lparr>state = 0, slotOutput = [], signalInput = [0]\<rparr>], [])
   \<and> getOutputs [Some \<lparr>state = 0 :: 8 word, slotOutput = [1, 2], signalInput = []\<rparr>,
                  Some \<lparr>state = 0, slotOutput = [], signalInput = [0]\<rparr>,
                  Some \<lparr>state = 0, slotOutput = [], signalInput = [0]\<rparr>] 0 = Inr [1, 2]
   \<and> getOutputs [Some \<lparr>state = 0 :: 8 word, slotOutput = [2, 1], signalInput = []\<rparr>,
                  Some \<lparr>state = 0, slotOutput = [], signalInput = [0]\<rparr>,
                  Some \<lparr>state = 0, slotOutput = [], signalInput = [0]\<rparr>] 0 = Inr [2, 1]
   \<and> [1, 2] \<noteq> [2, 1 :: addr]"
  by code_simp

text \<open>
  Claim C9, amended.  Apply any sequence of constructions, copies, destructions, connections,
  disconnections and calls of \<^verbatim>\<open>tick\<close> and \<^verbatim>\<open>emit\<close> to both classes, starting without any
  component.  Whenever the allowed depth of nesting is large enough in both, neither run
  exceeds it, and either both runs stop with the same error, or both return and their stores
  agree up to the order of the lists: the same components are alive, each has the same state
  in both, and each of its two lists holds the same pointers with the same multiplicities.
\<close>

theorem variants_agree:
  "\<exists>N. \<forall>n m. N \<le> n \<longrightarrow> N \<le> m \<longrightarrow>
     agree (exec ComponentList n ops ([] :: 'w::len heap, [])) (exec ComponentFList m ops ([], []))
     \<and> exec ComponentList n ops ([] :: 'w heap, []) \<noteq> Inl OutOfFuel
     \<and> exec ComponentFList m ops ([] :: 'w heap, []) \<noteq> Inl OutOfFuel"
proof -
  from exec_agree [OF well_formed_Nil symmetric_Nil similar_refl, of ComponentList ops ComponentFList]
  obtain N where "\<forall>n m tr tr'. N \<le> n \<longrightarrow> N \<le> m \<longrightarrow>
           agree (exec ComponentList n ops ([] :: 'w heap, tr)) (exec ComponentFList m ops ([], tr'))
           \<and> exec ComponentList n ops ([] :: 'w heap, tr) \<noteq> Inl OutOfFuel
           \<and> exec ComponentFList m ops ([] :: 'w heap, tr') \<noteq> Inl OutOfFuel"
    by blast
  then show ?thesis by blast
qed

theorem variants_agree_witness:
  "\<exists>N. agree (exec ComponentList N [Mutate (Construct 1), Mutate (Construct 0), Mutate (Construct 0),
                   Mutate (AddOutput 0 1), Mutate (AddOutput 0 2), Mutate (AddInput 0 2),
                   Mutate (CopyConstruct 0 True), Emit 0, Tick 0, Mutate (Destroy 1)]
                 ([] :: 8 heap, []))
              (exec ComponentFList N [Mutate (Construct 1), Mutate (Construct 0), Mutate (Construct 0),
                   Mutate (AddOutput 0 1), Mutate (AddOutput 0 2), Mutate (AddInput 0 2),
                   Mutate (CopyConstruct 0 True), Emit 0, Tick 0, Mutate (Destroy 1)]
                 ([], []))
        \<and> exec ComponentList N [Mutate (Construct 1), Mutate (Construct 0), Mutate (Construct 0),
                   Mutate (AddOutput 0 1), Mutate (AddOutput 0 2), Mutate (AddInput 0 2),
                   Mutate (CopyConstruct 0 True), Emit 0, Tick 0, Mutate (Destroy 1)]
                 ([] :: 8 heap, []) \<noteq> Inl OutOfFuel"
proof -
  from variants_agree [where 'w = 8] obtain N where
    "\<forall>n m. N \<le> n \<longrightarrow> N \<le> m \<longrightarrow>
       agree (exec ComponentList n [Mutate (Construct 1), Mutate (Construct 0), Mutate (Construct 0),
                   Mutate (AddOutput 0 1), Mutate (AddOutput 0 2), Mutate (AddInput 0 2),
                   Mutate (CopyConstruct 0 True), Emit 0, Tick 0, Mutate (Destroy 1)]
                 ([] :: 8 heap, []))
              (exec ComponentFList m [Mutate (Construct 1), Mutate (Construct 0), Mutate (Construct 0),
                   Mutate (AddOutput 0 1), Mutate (AddOutput 0 2), Mutate (AddInput 0 2),
                   Mutate (CopyConstruct 0 True), Emit 0, Tick 0, Mutate (Destroy 1)]
                 ([], []))
       \<and> exec ComponentList n [Mutate (Construct 1), Mutate (Construct 0), Mutate (Construct 0),
                   Mutate (AddOutput 0 1), Mutate (AddOutput 0 2), Mutate (AddInput 0 2),
                   Mutate (CopyConstruct 0 True), Emit 0, Tick 0, Mutate (Destroy 1)]
                 ([] :: 8 heap, []) \<noteq> Inl OutOfFuel
       \<and> exec ComponentFList m [Mutate (Construct 1), Mutate (Construct 0), Mutate (Construct 0),
                   Mutate (AddOutput 0 1), Mutate (AddOutput 0 2), Mutate (AddInput 0 2),
                   Mutate (CopyConstruct 0 True), Emit 0, Tick 0, Mutate (Destroy 1)]
                 ([] :: 8 heap, []) \<noteq> Inl OutOfFuel"
    by blast
  then show ?thesis by blast
qed

end
